theory Spec2Isabelle
  imports Main "HOL-Library.Multiset"
begin

section \<open>Data model (scanner.ts, interface TreeNode)\<close>

text \<open>
  A \<open>TreeNode\<close> has the fields \<open>name\<close>, \<open>path\<close>, \<open>size\<close>, \<open>type\<close> and the optional
  fields \<open>extension\<close>, \<open>children\<close>, \<open>truncated\<close>. An optional field that is absent is
  \<open>None\<close>; \<open>children = Some []\<close> (expanded and empty) differs from \<open>children = None\<close>
  (not expanded). The field \<open>size\<close> is called \<open>size_n\<close> here, since \<open>size\<close> is taken
  in HOL. Sizes are JavaScript numbers, that is IEEE 754 doubles, holding integers (the
  \<open>size\<close> of \<open>stat\<close>, 1024 times the kilobytes of \<open>du\<close>, 0, and sums of these). They are
  modelled as \<open>int\<close>, and the addition of two sizes rounds as the addition of doubles does
  (\<open>js_add\<close> below).
\<close>

datatype kind = File | Directory

datatype TreeNode = TreeNode
  (name: string) (path: string) (size_n: int) (type: kind)
  (extension: "string option") (children: "TreeNode list option")
  (truncated: "bool option")

text \<open>All nodes of a tree, each with its depth (the root of the walk has depth 0).\<close>

fun nodes_at :: "nat \<Rightarrow> TreeNode \<Rightarrow> (nat \<times> TreeNode) list" where
  "nodes_at d (TreeNode nm p s t e ch tr) =
     (d, TreeNode nm p s t e ch tr) #
     (case ch of None \<Rightarrow> [] | Some cs \<Rightarrow> concat (map (nodes_at (Suc d)) cs))"

definition nodes :: "TreeNode \<Rightarrow> TreeNode list" where
  "nodes t = map snd (nodes_at 0 t)"

section \<open>Snapshotter (scanner.ts, snapshot / recalcSizes / applyChildLimits)\<close>

definition CHILD_LIMIT_DEPTH :: nat where
  "CHILD_LIMIT_DEPTH = 2"

definition MAX_CHILDREN :: nat where
  "MAX_CHILDREN = 30"

text \<open>
  \<open>xs.sort((a, b) => b.size - a.size)\<close>: a stable sort by size, largest first.
  \<open>sort_key\<close> is a stable insertion sort.
\<close>

definition sort_desc :: "TreeNode list \<Rightarrow> TreeNode list" where
  "sort_desc cs = sort_key (\<lambda>c. - size_n c) cs"

text \<open>
  The \<open>+\<close> of two numbers that hold integers: the exact sum rounded to the nearest double,
  ties to the even significand. The doubles of magnitude \<open>2^k\<close> up to \<open>2^(k+1)\<close>, for
  \<open>k \<ge> 53\<close>, are the multiples of \<open>2^(k-52)\<close>, which is \<open>ulp\<close>; below \<open>2^53\<close> every integer
  is a double. The overflow to \<open>Infinity\<close>, from \<open>2^1024\<close> on, is left out: no sum of file
  sizes comes near it.
\<close>

function ulp :: "nat \<Rightarrow> nat" where
  "ulp n = (if n < 2 ^ 53 then 1 else 2 * ulp (n div 2))"
  by pat_completeness auto
termination
  by (relation "measure (\<lambda>n. n)") auto

definition to_double :: "nat \<Rightarrow> nat" where
  "to_double n =
     (let q = ulp n; r = n mod q; b = n - r
      in if 2 * r < q then b
         else if q < 2 * r then b + q
         else if even (b div q) then b else b + q)"

definition js_add :: "int \<Rightarrow> int \<Rightarrow> int" where
  "js_add a b =
     (let s = a + b
      in if s < 0 then - int (to_double (nat (- s))) else int (to_double (nat s)))"

text \<open>\<open>xs.reduce((s, x) => s + x, 0)\<close> and \<open>xs.reduce((s, c) => s + c.size, 0)\<close>\<close>

definition js_sum :: "int list \<Rightarrow> int" where
  "js_sum xs = foldl js_add 0 xs"

definition sum_sizes :: "TreeNode list \<Rightarrow> int" where
  "sum_sizes cs = foldl (\<lambda>s c. js_add s (size_n c)) 0 cs"

text \<open>Decimal digits of a number, for the template literal in the aggregate's name.\<close>

fun show_nat :: "nat \<Rightarrow> string" where
  "show_nat n =
     (if n < 10 then [char_of (48 + n)]
      else show_nat (n div 10) @ [char_of (48 + n mod 10)])"

text \<open>
  The block shared by \<open>scanDirectory\<close> (lines 117-131) and \<open>applyChildLimits\<close>
  (lines 284-298): keep the first \<open>MAX_CHILDREN\<close> children and, when the dropped ones
  have a positive total size, append one synthetic node carrying that total.
\<close>

definition other_node :: "string \<Rightarrow> nat \<Rightarrow> int \<Rightarrow> TreeNode" where
  "other_node dirPath n droppedSize =
     TreeNode (''('' @ show_nat n @ '' smaller items)'') (dirPath @ ''/__other__'')
       droppedSize File None None None"

definition limit_children :: "string \<Rightarrow> TreeNode list \<Rightarrow> TreeNode list" where
  "limit_children dirPath cs =
     (let kept = take MAX_CHILDREN cs;
          droppedSize = sum_sizes (drop MAX_CHILDREN cs)
      in if droppedSize > 0
         then kept @ [other_node dirPath (length cs - MAX_CHILDREN) droppedSize]
         else kept)"

fun recalcSizes :: "TreeNode \<Rightarrow> TreeNode" where
  "recalcSizes (TreeNode nm p s t e ch tr) =
     (case ch of
        None \<Rightarrow> TreeNode nm p s t e ch tr
      | Some cs \<Rightarrow>
          if cs = [] then TreeNode nm p s t e ch tr
          else (let cs' = sort_desc (map recalcSizes cs)
                in TreeNode nm p (sum_sizes cs') t e (Some cs') tr))"

fun applyChildLimits :: "TreeNode \<Rightarrow> nat \<Rightarrow> TreeNode" where
  "applyChildLimits (TreeNode nm p s t e ch tr) depth =
     (case ch of
        None \<Rightarrow> TreeNode nm p s t e ch tr
      | Some cs \<Rightarrow>
          if cs = [] then TreeNode nm p s t e ch tr
          else (let cs' = map (\<lambda>c. applyChildLimits c (depth + 1)) cs
                in if depth \<ge> CHILD_LIMIT_DEPTH \<and> length cs' > MAX_CHILDREN
                   then TreeNode nm p s t e (Some (limit_children p cs')) tr
                   else TreeNode nm p s t e (Some cs') tr))"

text \<open>
  \<open>JSON.parse(JSON.stringify(root))\<close>: a deep copy. Every field of a node is a string,
  an integer, a boolean or a list of nodes, and an absent field stays absent, so the copy
  has the same value as the original.
\<close>

fun clone :: "TreeNode \<Rightarrow> TreeNode" where
  "clone (TreeNode nm p s t e ch tr) =
     TreeNode nm p s t e (map_option (map clone) ch) tr"

definition snapshot :: "TreeNode \<Rightarrow> TreeNode" where
  "snapshot root = recalcSizes (applyChildLimits (recalcSizes (clone root)) 0)"

text \<open>The three passes of \<open>snapshot\<close>, started at an inner node of depth \<open>d\<close>.\<close>

definition snapshot_from :: "nat \<Rightarrow> TreeNode \<Rightarrow> TreeNode" where
  "snapshot_from d n = recalcSizes (applyChildLimits (recalcSizes n) d)"

section \<open>Paths and strings (node:path, String.prototype)\<close>

text \<open>
  \<open>join(dirPath, entry.name)\<close> for a directory path and the name of one of its entries
  (a name returned by \<open>readdir\<close> holds no separator and is neither \<open>.\<close> nor \<open>..\<close>).
\<close>

definition join :: "string \<Rightarrow> string \<Rightarrow> string" where
  "join dirPath nm =
     (if dirPath = [] then nm
      else if last dirPath = CHR ''/'' then dirPath @ nm
      else dirPath @ ''/'' @ nm)"

text \<open>\<open>basename(p)\<close>: the last component of \<open>p\<close>, trailing separators ignored.\<close>

definition basename :: "string \<Rightarrow> string" where
  "basename p =
     rev (takeWhile (\<lambda>c. c \<noteq> CHR ''/'') (dropWhile (\<lambda>c. c = CHR ''/'') (rev p)))"

text \<open>\<open>basename(dirPath) || dirPath\<close>\<close>

definition dir_name :: "string \<Rightarrow> string" where
  "dir_name dirPath = (if basename dirPath = [] then dirPath else basename dirPath)"

text \<open>
  \<open>extname(nm)\<close> for a name without separators: from the last dot to the end; empty when
  there is no dot, when the last dot is the first character, and for \<open>..\<close>.
\<close>

definition extname :: "string \<Rightarrow> string" where
  "extname nm =
     (let after = takeWhile (\<lambda>c. c \<noteq> CHR ''.'') (rev nm)
      in if length after = length nm then []
         else if length after + 1 = length nm then []
         else if nm = ''..'' then []
         else drop (length nm - length after - 1) nm)"

text \<open>\<open>s.toLowerCase()\<close> on the ASCII letters; other bytes are kept.\<close>

definition toLowerCase :: "string \<Rightarrow> string" where
  "toLowerCase s =
     map (\<lambda>c. let n = (of_char c :: nat)
              in if 65 \<le> n \<and> n \<le> 90 then char_of (n + 32) else c) s"

text \<open>\<open>extname(entry.name).toLowerCase() || undefined\<close>\<close>

definition extension_of :: "string \<Rightarrow> string option" where
  "extension_of nm =
     (let e = toLowerCase (extname nm) in if e = [] then None else Some e)"

text \<open>
  \<open>parseInt(s, 10)\<close>: leading white space is skipped, a sign is read, then the longest
  run of decimal digits; \<open>None\<close> is \<open>NaN\<close> (no digit).
\<close>

definition is_space :: "char \<Rightarrow> bool" where
  "is_space c = ((of_char c :: nat) \<in> {9, 10, 11, 12, 13, 32})"

definition is_digit :: "char \<Rightarrow> bool" where
  "is_digit c = (48 \<le> (of_char c :: nat) \<and> (of_char c :: nat) \<le> 57)"

definition digits_value :: "string \<Rightarrow> int" where
  "digits_value ds = foldl (\<lambda>a c. 10 * a + (int (of_char c) - 48)) 0 ds"

definition parseInt :: "string \<Rightarrow> int option" where
  "parseInt s =
     (let s1 = dropWhile is_space s;
          neg = (s1 \<noteq> [] \<and> hd s1 = CHR ''-'');
          s2 = (if s1 \<noteq> [] \<and> (hd s1 = CHR ''-'' \<or> hd s1 = CHR ''+'') then tl s1 else s1);
          ds = takeWhile is_digit s2
      in if ds = [] then None
         else Some (if neg then - digits_value ds else digits_value ds))"

section \<open>The file system, as the walker sees it\<close>

text \<open>
  A directory entry as \<open>readdir(p, {withFileTypes: true})\<close> returns it: a name and one
  type. \<open>isSymbolicLink()\<close>, \<open>isDirectory()\<close> and \<open>isFile()\<close> test that type, so at most
  one of them holds. A symbolic link is an entry of type \<open>DSymlink\<close>, whatever it points to.
\<close>

datatype dtype = DFile | DDirectory | DSymlink | DOther

record dirent =
  d_name :: string
  d_type :: dtype

definition isSymbolicLink :: "dirent \<Rightarrow> bool" where
  "isSymbolicLink e = (d_type e = DSymlink)"

definition isDirectory :: "dirent \<Rightarrow> bool" where
  "isDirectory e = (d_type e = DDirectory)"

definition isFile :: "dirent \<Rightarrow> bool" where
  "isFile e = (d_type e = DFile)"

text \<open>
  The three calls the walker makes, each a function of the path; \<open>None\<close> is a call that
  throws (or, for \<open>du\<close>, a process that fails or is killed by the timeout). \<open>du_out\<close>
  is the standard output of \<open>du -sk path\<close>. Any function is allowed, so a file system
  may be infinitely deep or refer to itself.
\<close>

record filesystem =
  readdir :: "string \<Rightarrow> dirent list option"
  stat :: "string \<Rightarrow> int option"
  du_out :: "string \<Rightarrow> string option"

section \<open>ConcurrencyLimiter (scanner.ts, acquireSlot / releaseSlot / withSlot)\<close>

definition MAX_CONCURRENT :: int where
  "MAX_CONCURRENT = 64"

text \<open>
  The module state: the counter \<open>active\<close> and the queue of suspended callers. A caller
  is named by a number; the queue holds the callers whose promise is not resolved yet.
\<close>

record limiter =
  active :: int
  queue :: "nat list"

text \<open>
  \<open>acquireSlot()\<close> called by \<open>w\<close>: the new state, and whether the returned promise is
  already resolved.
\<close>

definition acquireSlot :: "nat \<Rightarrow> limiter \<Rightarrow> limiter \<times> bool" where
  "acquireSlot w l =
     (if active l < MAX_CONCURRENT then (l\<lparr>active := active l + 1\<rparr>, True)
      else (l\<lparr>queue := queue l @ [w]\<rparr>, False))"

text \<open>\<open>releaseSlot()\<close>: the new state, and the caller whose promise it resolves, if any.\<close>

definition releaseSlot :: "limiter \<Rightarrow> limiter \<times> nat option" where
  "releaseSlot l =
     (case queue l of
        next # rest \<Rightarrow> (l\<lparr>queue := rest\<rparr>, Some next)
      | [] \<Rightarrow> (l\<lparr>active := active l - 1\<rparr>, None))"

text \<open>
  The limiter in use. \<open>holders\<close> are the callers that were granted a slot and have not
  released it; \<open>ticket\<close> numbers the callers in their order of arrival. A caller arrives
  with \<open>acquireSlot\<close>; only a holder calls \<open>releaseSlot\<close> (in \<open>withSlot\<close>, the release
  follows the \<open>await acquireSlot()\<close>).
\<close>

record limiter_state =
  lim :: limiter
  holders :: "nat set"
  ticket :: nat

definition limiter_init :: limiter_state where
  "limiter_init = \<lparr>lim = \<lparr>active = 0, queue = []\<rparr>, holders = {}, ticket = 0\<rparr>"

definition do_acquire :: "limiter_state \<Rightarrow> limiter_state" where
  "do_acquire s =
     (let w = ticket s; (l', granted) = acquireSlot w (lim s)
      in \<lparr>lim = l',
          holders = (if granted then insert w (holders s) else holders s),
          ticket = Suc w\<rparr>)"

definition do_release :: "nat \<Rightarrow> limiter_state \<Rightarrow> limiter_state" where
  "do_release w s =
     (let (l', woken) = releaseSlot (lim s)
      in \<lparr>lim = l',
          holders = (case woken of None \<Rightarrow> holders s - {w}
                     | Some n \<Rightarrow> insert n (holders s - {w})),
          ticket = ticket s\<rparr>)"

inductive limiter_step :: "limiter_state \<Rightarrow> limiter_state \<Rightarrow> bool" where
  acquire: "limiter_step s (do_acquire s)"
| release: "w \<in> holders s \<Longrightarrow> limiter_step s (do_release w s)"

definition limiter_reachable :: "limiter_state \<Rightarrow> bool" where
  "limiter_reachable s = limiter_step\<^sup>*\<^sup>* limiter_init s"

text \<open>
  What one asynchronous call does, in order: the events it performs and its result
  (\<open>None\<close> when it throws). \<open>withSlot(fn)\<close> acquires, runs \<open>fn\<close>, and releases in
  \<open>finally\<close>, whatever \<open>fn\<close> did.
\<close>

datatype syscall = Readdir | Stat | DuExec

datatype event = AcquireSlot | ReleaseSlot | Syscall syscall string

definition withSlot :: "event list \<times> 'a option \<Rightarrow> event list \<times> 'a option" where
  "withSlot fn = (AcquireSlot # fst fn @ [ReleaseSlot], snd fn)"

definition readdir_call :: "filesystem \<Rightarrow> string \<Rightarrow> event list \<times> dirent list option" where
  "readdir_call fs p = ([Syscall Readdir p], readdir fs p)"

definition stat_call :: "filesystem \<Rightarrow> string \<Rightarrow> event list \<times> int option" where
  "stat_call fs p = ([Syscall Stat p], stat fs p)"

section \<open>FastSizeEstimator (scanner.ts, fastDirSize)\<close>

text \<open>
  \<open>abortedAtCall\<close> is \<open>signal?.aborted\<close> when the function is entered, \<open>abortedLater\<close>
  whether the signal fires while \<open>du\<close> is outstanding (the \<open>onAbort\<close> rejection and the
  second check). The function never throws. Without a signal both flags are \<open>False\<close>.
\<close>

definition fastDirSize :: "filesystem \<Rightarrow> string \<Rightarrow> bool \<Rightarrow> bool \<Rightarrow> event list \<times> int" where
  "fastDirSize fs dirPath abortedAtCall abortedLater =
     (if abortedAtCall then ([], 0)
      else ([Syscall DuExec dirPath],
            if abortedLater then 0
            else (case du_out fs dirPath of
                    None \<Rightarrow> 0
                  | Some text \<Rightarrow>
                      (case parseInt (takeWhile (\<lambda>c. c \<noteq> CHR 0x09) text) of
                         None \<Rightarrow> 0
                       | Some kb \<Rightarrow> kb * 1024))))"

section \<open>TreeWalker, one-shot mode (scanner.ts, scanDirectory)\<close>

text \<open>
  A walk returns its tree together with the list of the asynchronous calls it made, each
  call being the sequence of its events. The calls of one directory run concurrently
  (\<open>Promise.all\<close>), so only the order inside one call is meaningful.
\<close>

type_synonym call = "event list"

text \<open>The two object literals of the walker: a file node and an empty directory node.\<close>

definition file_node :: "string \<Rightarrow> string \<Rightarrow> int \<Rightarrow> TreeNode" where
  "file_node nm fullPath sz = TreeNode nm fullPath sz File (extension_of nm) None None"

definition dir_node :: "string \<Rightarrow> string \<Rightarrow> TreeNode" where
  "dir_node nm p = TreeNode nm p 0 Directory None None None"

text \<open>
  \<open>scanDirectory(dirPath, maxDepth, depth)\<close>. The recursive call cannot throw (every
  failing call inside is caught), so its \<open>catch\<close> branch is not a case of the model.
  \<open>Promise.all\<close> keeps the order of the entries; \<open>List.map_filter\<close> drops the \<open>null\<close>
  results.
\<close>

function scanDirectory :: "filesystem \<Rightarrow> string \<Rightarrow> nat \<Rightarrow> nat \<Rightarrow> TreeNode \<times> call list" where
  "scanDirectory fs dirPath maxDepth depth =
     (let nm = dir_name dirPath
      in if depth \<ge> maxDepth then
           (let r = fastDirSize fs dirPath False False
            in (TreeNode nm dirPath (snd r) Directory None None (Some True), [fst r]))
         else
           (case withSlot (readdir_call fs dirPath) of
              (evs, None) \<Rightarrow> (TreeNode nm dirPath 0 Directory None None None, [evs])
            | (evs, Some entries) \<Rightarrow>
                (let results =
                       map (\<lambda>entry.
                              if isSymbolicLink entry then (None, [])
                              else (let fullPath = join dirPath (d_name entry)
                                    in if isDirectory entry then
                                         (let r = scanDirectory fs fullPath maxDepth (depth + 1)
                                          in (Some (fst r), snd r))
                                       else if isFile entry then
                                         (case withSlot (stat_call fs fullPath) of
                                            (evs', Some sz) \<Rightarrow>
                                              (Some (file_node (d_name entry) fullPath sz), [evs'])
                                          | (evs', None) \<Rightarrow> (None, [evs']))
                                       else (None, [])))
                           entries;
                     children0 = sort_desc (List.map_filter fst results);
                     children1 =
                       (if depth \<ge> CHILD_LIMIT_DEPTH \<and> length children0 > MAX_CHILDREN
                        then limit_children dirPath children0 else children0)
                 in (TreeNode nm dirPath (sum_sizes children1) Directory None (Some children1) None,
                     evs # concat (map snd results)))))"
  by pat_completeness auto
termination
  by (relation "measure (\<lambda>(fs, dirPath, maxDepth, depth). maxDepth - depth)") auto



section \<open>TreeWalker, incremental mode (scanner.ts, fillNode / scanDirectoryStreaming)\<close>

record ScanProgress =
  dirsFound :: nat
  dirsCompleted :: nat

text \<open>Assignments to one field of a node.\<close>

definition set_size :: "int \<Rightarrow> TreeNode \<Rightarrow> TreeNode" where
  "set_size v n = TreeNode (name n) (path n) v (type n) (extension n) (children n) (truncated n)"

definition set_truncated :: "TreeNode \<Rightarrow> TreeNode" where
  "set_truncated n =
     TreeNode (name n) (path n) (size_n n) (type n) (extension n) (children n) (Some True)"

definition set_children :: "TreeNode list \<Rightarrow> TreeNode \<Rightarrow> TreeNode" where
  "set_children cs n =
     TreeNode (name n) (path n) (size_n n) (type n) (extension n) (Some cs) (truncated n)"

text \<open>
  The entries that get a placeholder and a recursive \<open>fillNode\<close> (line 225 and lines
  232-235), and the entries that are statted (lines 232, 235, 247).
\<close>

definition is_subdir :: "dirent \<Rightarrow> bool" where
  "is_subdir e = (\<not> isSymbolicLink e \<and> isDirectory e)"

definition is_plain_file :: "dirent \<Rightarrow> bool" where
  "is_plain_file e = (\<not> isSymbolicLink e \<and> \<not> isDirectory e \<and> isFile e)"

text \<open>
  \<open>fillNode\<close> run to completion with a signal that never fires. The node and the
  progress counters are mutated in place by the source; here they are passed in and
  returned. Placeholders of subdirectories are pushed while the entries are mapped, in
  the order of the entries; file nodes are pushed when their \<open>stat\<close> returns, here in the
  order of the entries.
\<close>

function fillNode ::
  "filesystem \<Rightarrow> nat \<Rightarrow> nat \<Rightarrow> TreeNode \<Rightarrow> ScanProgress \<Rightarrow> TreeNode \<times> ScanProgress \<times> call list" where
  "fillNode fs maxDepth depth node progress =
     (if depth \<ge> maxDepth then
        (let r = fastDirSize fs (path node) False False
         in (set_size (snd r) (set_truncated node),
             progress\<lparr>dirsCompleted := dirsCompleted progress + 1\<rparr>, [fst r]))
      else
        (case withSlot (readdir_call fs (path node)) of
           (evs, None) \<Rightarrow> (node, progress\<lparr>dirsCompleted := dirsCompleted progress + 1\<rparr>, [evs])
         | (evs, Some entries) \<Rightarrow>
             (let progress1 =
                    progress\<lparr>dirsFound := dirsFound progress + length (filter is_subdir entries)\<rparr>;
                  dirs =
                    foldl (\<lambda>acc entry.
                             let child = dir_node (d_name entry) (join (path node) (d_name entry));
                                 r = fillNode fs maxDepth (depth + 1) child (fst (snd acc))
                             in (fst acc @ [fst r], fst (snd r), snd (snd acc) @ snd (snd r)))
                          ([], progress1, []) (filter is_subdir entries);
                  files =
                    map (\<lambda>entry.
                           let fullPath = join (path node) (d_name entry)
                           in case withSlot (stat_call fs fullPath) of
                                (evs', Some sz) \<Rightarrow> ([file_node (d_name entry) fullPath sz], evs')
                              | (evs', None) \<Rightarrow> ([], evs'))
                        (filter is_plain_file entries);
                  progress2 = fst (snd dirs)
              in (set_children (fst dirs @ concat (map fst files)) node,
                  progress2\<lparr>dirsCompleted := dirsCompleted progress2 + 1\<rparr>,
                  evs # snd (snd dirs) @ map snd files))))"
  by pat_completeness auto
termination
  by (relation "measure (\<lambda>(fs, maxDepth, depth, node, progress). maxDepth - depth)") auto


text \<open>
  \<open>scanDirectoryStreaming\<close> run to completion with a signal that never fires: the
  returned tree, the final counters and the calls made.
\<close>

definition scanDirectoryStreaming ::
  "filesystem \<Rightarrow> string \<Rightarrow> nat \<Rightarrow> TreeNode \<times> ScanProgress \<times> call list" where
  "scanDirectoryStreaming fs dirPath maxDepth =
     (let root = dir_node (dir_name dirPath) dirPath;
          r = fillNode fs maxDepth 0 root \<lparr>dirsFound = 1, dirsCompleted = 0\<rparr>
      in (snapshot (fst r), fst (snd r), snd (snd r)))"

subsection \<open>The incremental walk step by step\<close>

text \<open>
  JavaScript runs one callback at a time, so the walk is a sequence of atomic steps, one
  for each completion of an awaited call. \<open>shared\<close> holds the variables every
  \<open>fillNode\<close> call shares: the progress counters, the \<open>dirty\<close> flag and the state of the
  abort signal.
\<close>

record shared =
  progress :: ScanProgress
  dirty :: bool
  aborted :: bool

definition markDirty :: "shared \<Rightarrow> shared" where
  "markDirty g = g\<lparr>dirty := True\<rparr>"

definition inc_completed :: "shared \<Rightarrow> shared" where
  "inc_completed g =
     g\<lparr>progress := (progress g)\<lparr>dirsCompleted := dirsCompleted (progress g) + 1\<rparr>\<rparr>"

definition add_found :: "nat \<Rightarrow> shared \<Rightarrow> shared" where
  "add_found k g = g\<lparr>progress := (progress g)\<lparr>dirsFound := dirsFound (progress g) + k\<rparr>\<rparr>"

text \<open>
  Where a call of \<open>fillNode\<close> is suspended: in \<open>await fastDirSize\<close> (line 205), in
  \<open>await withSlot(readdir)\<close> (line 213), in \<open>await Promise.all\<close> (line 263), or returned.
  While it waits for its entries, the \<open>i\<close>-th subdirectory of the listing is
  \<open>node.children[i]\<close> (the placeholders are pushed first, in the order of the entries,
  while \<open>entries.map\<close> runs), and the state holds the \<open>fillNode\<close> call of each
  subdirectory, in that order, and the file entries whose \<open>stat\<close> has not returned.
  The callbacks of symbolic links and of other entries return at once.
\<close>

datatype fill = AwaitDu | AwaitReaddir | AwaitAll "fill list" "dirent list" | Returned

text \<open>\<open>fillNode\<close> from its call to its first \<open>await\<close> (lines 201-213).\<close>

definition fill_begin :: "nat \<Rightarrow> nat \<Rightarrow> bool \<Rightarrow> TreeNode \<Rightarrow> TreeNode \<times> fill" where
  "fill_begin maxDepth depth ab node =
     (if ab then (node, Returned)
      else if depth \<ge> maxDepth then (set_truncated node, AwaitDu)
      else (node, AwaitReaddir))"

text \<open>
  The callback of \<open>entries.map\<close> for a subdirectory, from its call to its first \<open>await\<close>
  (lines 231-245), with the signal not fired: the placeholder it pushes and the state of
  the \<open>fillNode\<close> call it starts.
\<close>

definition begin_child :: "nat \<Rightarrow> nat \<Rightarrow> string \<Rightarrow> dirent \<Rightarrow> TreeNode \<times> fill" where
  "begin_child maxDepth depth dirPath entry =
     fill_begin maxDepth (depth + 1) False
       (dir_node (d_name entry) (join dirPath (d_name entry)))"

text \<open>
  One step of the \<open>fillNode\<close> call on \<open>node\<close> at \<open>depth\<close>, or of a call below it:
  \<open>du\<close> returns (lines 205-208); \<open>readdir\<close> throws (lines 214-217); \<open>readdir\<close> returns
  after the signal fired (line 219); \<open>readdir\<close> returns (lines 221-262, up to the
  \<open>await\<close> of every callback); a \<open>stat\<close> returns (lines 251-258) or throws (line 259);
  the call of a subdirectory makes a step; every callback has returned (lines 263-265).
\<close>

inductive fill_step ::
  "filesystem \<Rightarrow> nat \<Rightarrow> nat \<Rightarrow> shared \<times> TreeNode \<times> fill \<Rightarrow> shared \<times> TreeNode \<times> fill \<Rightarrow> bool"
  for fs :: filesystem and maxDepth :: nat where
  du_settled:
    "fill_step fs maxDepth depth (g, node, AwaitDu)
       (markDirty (inc_completed g),
        set_size (snd (fastDirSize fs (path node) False (aborted g))) node, Returned)"
| readdir_failed:
    "readdir fs (path node) = None \<Longrightarrow>
     fill_step fs maxDepth depth (g, node, AwaitReaddir) (inc_completed g, node, Returned)"
| readdir_aborted:
    "readdir fs (path node) = Some entries \<Longrightarrow> aborted g \<Longrightarrow>
     fill_step fs maxDepth depth (g, node, AwaitReaddir) (g, node, Returned)"
| readdir_ok:
    "readdir fs (path node) = Some entries \<Longrightarrow> \<not> aborted g \<Longrightarrow>
     subdirs = filter is_subdir entries \<Longrightarrow>
     g' = add_found (length subdirs) g \<Longrightarrow>
     fill_step fs maxDepth depth (g, node, AwaitReaddir)
       (if subdirs = [] then g' else markDirty g',
        set_children (map (\<lambda>e. fst (begin_child maxDepth depth (path node) e)) subdirs) node,
        AwaitAll (map (\<lambda>e. snd (begin_child maxDepth depth (path node) e)) subdirs)
          (filter is_plain_file entries))"
| stat_ok:
    "entry \<in> set stats \<Longrightarrow>
     stat fs (join (path node) (d_name entry)) = Some sz \<Longrightarrow>
     children node = Some cs \<Longrightarrow>
     fill_step fs maxDepth depth (g, node, AwaitAll fills stats)
       (markDirty g,
        set_children (cs @ [file_node (d_name entry) (join (path node) (d_name entry)) sz]) node,
        AwaitAll fills (remove1 entry stats))"
| stat_failed:
    "entry \<in> set stats \<Longrightarrow>
     stat fs (join (path node) (d_name entry)) = None \<Longrightarrow>
     fill_step fs maxDepth depth (g, node, AwaitAll fills stats)
       (g, node, AwaitAll fills (remove1 entry stats))"
| child_step:
    "j < length fills \<Longrightarrow> children node = Some cs \<Longrightarrow> j < length cs \<Longrightarrow>
     fill_step fs maxDepth (depth + 1) (g, cs ! j, fills ! j) (g', c', f') \<Longrightarrow>
     fill_step fs maxDepth depth (g, node, AwaitAll fills stats)
       (g', set_children (cs[j := c']) node, AwaitAll (fills[j := f']) stats)"
| all_settled:
    "\<forall>f \<in> set fills. f = Returned \<Longrightarrow> stats = [] \<Longrightarrow>
     fill_step fs maxDepth depth (g, node, AwaitAll fills stats)
       (markDirty (inc_completed g), node, Returned)"

text \<open>
  A call of \<open>scanDirectoryStreaming\<close>: the shared variables, the working tree, the state
  of \<open>fillNode(root)\<close> and whether the promise is settled (and the timer cleared).
  A step is labelled with what the call hands to its caller: a snapshot passed to
  \<open>onProgress\<close>, the returned tree, a rejection. \<open>SignalAbort\<close> is the signal firing.
\<close>

record scan_state =
  sh :: shared
  root :: TreeNode
  walk :: fill
  finished :: bool

definition scan_init :: "string \<Rightarrow> nat \<Rightarrow> bool \<Rightarrow> scan_state" where
  "scan_init dirPath maxDepth ab =
     (let root0 = dir_node (dir_name dirPath) dirPath;
          b = fill_begin maxDepth 0 ab root0
      in \<lparr>sh = \<lparr>progress = \<lparr>dirsFound = 1, dirsCompleted = 0\<rparr>, dirty = False, aborted = ab\<rparr>,
          root = fst b, walk = snd b, finished = False\<rparr>)"

datatype scan_label =
  Internal | Progress TreeNode ScanProgress | Resolve TreeNode | RejectAbort
  | RejectError string | SignalAbort

definition tick :: "scan_state \<Rightarrow> scan_label \<times> scan_state" where
  "tick s =
     (if aborted (sh s) then (Internal, s)
      else if dirty (sh s)
      then (Progress (snapshot (root s)) (progress (sh s)), s\<lparr>sh := (sh s)\<lparr>dirty := False\<rparr>\<rparr>)
      else (Internal, s))"

definition finish :: "scan_state \<Rightarrow> scan_label \<times> scan_state" where
  "finish s =
     (if aborted (sh s) then (RejectAbort, s\<lparr>finished := True\<rparr>)
      else (Resolve (snapshot (root s)), s\<lparr>finished := True\<rparr>))"

inductive scan_step :: "filesystem \<Rightarrow> nat \<Rightarrow> scan_state \<Rightarrow> scan_label \<Rightarrow> scan_state \<Rightarrow> bool"
  for fs :: filesystem and maxDepth :: nat where
  walker:
    "fill_step fs maxDepth 0 (sh s, root s, walk s) (g', r', f') \<Longrightarrow>
     scan_step fs maxDepth s Internal (s\<lparr>sh := g', root := r', walk := f'\<rparr>)"
| timer:
    "\<not> finished s \<Longrightarrow> tick s = (l, s') \<Longrightarrow> scan_step fs maxDepth s l s'"
| completion:
    "walk s = Returned \<Longrightarrow> \<not> finished s \<Longrightarrow> finish s = (l, s') \<Longrightarrow>
     scan_step fs maxDepth s l s'"
| signal:
    "scan_step fs maxDepth s SignalAbort (s\<lparr>sh := (sh s)\<lparr>aborted := True\<rparr>\<rparr>)"

inductive scan_reachable :: "filesystem \<Rightarrow> nat \<Rightarrow> string \<Rightarrow> scan_state \<Rightarrow> bool"
  for fs :: filesystem and maxDepth :: nat and dirPath :: string where
  start: "scan_reachable fs maxDepth dirPath (scan_init dirPath maxDepth ab)"
| step: "scan_reachable fs maxDepth dirPath s \<Longrightarrow> scan_step fs maxDepth s l s' \<Longrightarrow>
         scan_reachable fs maxDepth dirPath s'"

text \<open>The tree a step publishes.\<close>

fun published :: "scan_label \<Rightarrow> TreeNode option" where
  "published (Progress t p) = Some t"
| "published (Resolve t) = Some t"
| "published _ = None"

section \<open>ScanCoordinator (server.ts)\<close>

definition MAX_DEPTH :: nat where
  "MAX_DEPTH = 8"

text \<open>
  \<open>ActiveScan\<close> with the call of \<open>scanDirectoryStreaming\<close> it started in \<open>scan_run\<close>; the
  \<open>aborted\<close> flag of that call is the signal of the scan's \<open>AbortController\<close>. The
  coordinator holds every scan object created so far, \<open>activeScan\<close> as an index into them,
  the listeners of \<open>sseListeners\<close> and, for each event sent, the listener, the scan it
  came from and the event.
\<close>

datatype ScanEvent = ProgressEvent TreeNode "ScanProgress option" | DoneEvent TreeNode | ErrorEvent string

record ActiveScan =
  scan_path :: string
  scan_tree :: "TreeNode option"
  scan_progress :: "ScanProgress option"
  scan_done :: bool
  scan_error :: "string option"
  scan_run :: scan_state

record coordinator =
  scans :: "ActiveScan list"
  activeScan :: "nat option"
  sseListeners :: "nat list"
  delivered :: "(nat \<times> nat \<times> ScanEvent) list"

definition coordinator_init :: coordinator where
  "coordinator_init = \<lparr>scans = [], activeScan = None, sseListeners = [], delivered = []\<rparr>"

definition abort_scan :: "nat \<Rightarrow> coordinator \<Rightarrow> coordinator" where
  "abort_scan i c =
     c\<lparr>scans := (scans c)[i := (scans c ! i)\<lparr>scan_run :=
          (scan_run (scans c ! i))\<lparr>sh := (sh (scan_run (scans c ! i)))\<lparr>aborted := True\<rparr>\<rparr>\<rparr>]\<rparr>"

definition startBackgroundScan :: "string \<Rightarrow> coordinator \<Rightarrow> coordinator" where
  "startBackgroundScan dirPath c =
     (let c1 = (case activeScan c of
                  Some a \<Rightarrow> if \<not> scan_done (scans c ! a) then abort_scan a c else c
                | None \<Rightarrow> c);
          scan = \<lparr>scan_path = dirPath, scan_tree = None, scan_progress = None,
                  scan_done = False, scan_error = None,
                  scan_run = scan_init dirPath MAX_DEPTH False\<rparr>
      in c1\<lparr>scans := scans c1 @ [scan], activeScan := Some (length (scans c1))\<rparr>)"

definition needsNew :: "string \<Rightarrow> coordinator \<Rightarrow> bool" where
  "needsNew resolved c =
     (case activeScan c of
        None \<Rightarrow> True
      | Some a \<Rightarrow> scan_path (scans c ! a) \<noteq> resolved
                 \<or> (scan_done (scans c ! a) \<and> scan_error (scans c ! a) \<noteq> None))"

definition requestScan :: "string \<Rightarrow> coordinator \<Rightarrow> coordinator" where
  "requestScan resolved c = (if needsNew resolved c then startBackgroundScan resolved c else c)"

text \<open>The body of \<open>start(controller)\<close> in the route \<open>/api/scan\<close> (lines 155-178).\<close>

definition subscribe :: "nat \<Rightarrow> coordinator \<Rightarrow> coordinator" where
  "subscribe l c =
     (case activeScan c of
        None \<Rightarrow> c\<lparr>sseListeners := sseListeners c @ [l]\<rparr>
      | Some a \<Rightarrow>
          (case scan_tree (scans c ! a) of
             None \<Rightarrow> c\<lparr>sseListeners := sseListeners c @ [l]\<rparr>
           | Some t \<Rightarrow>
               if scan_done (scans c ! a)
               then c\<lparr>delivered := delivered c @ [(l, a, DoneEvent t)]\<rparr>
               else c\<lparr>delivered :=
                        delivered c @ [(l, a, ProgressEvent t (scan_progress (scans c ! a)))],
                      sseListeners := sseListeners c @ [l]\<rparr>))"

definition api_scan :: "string \<Rightarrow> nat \<Rightarrow> coordinator \<Rightarrow> coordinator" where
  "api_scan resolved l c = subscribe l (requestScan resolved c)"

text \<open>
  \<open>broadcast(event)\<close> from scan \<open>i\<close>: every listener is sent the event; on \<open>done\<close> and
  \<open>error\<close> each listener removes itself.
\<close>

definition broadcast :: "nat \<Rightarrow> ScanEvent \<Rightarrow> coordinator \<Rightarrow> coordinator" where
  "broadcast i ev c =
     c\<lparr>delivered := delivered c @ map (\<lambda>l. (l, i, ev)) (sseListeners c),
       sseListeners := (case ev of ProgressEvent t p \<Rightarrow> sseListeners c | _ \<Rightarrow> [])\<rparr>"

definition update_scan :: "nat \<Rightarrow> (ActiveScan \<Rightarrow> ActiveScan) \<Rightarrow> coordinator \<Rightarrow> coordinator" where
  "update_scan i f c = c\<lparr>scans := (scans c)[i := f (scans c ! i)]\<rparr>"

text \<open>
  The callbacks \<open>startBackgroundScan\<close> attaches to the scan: \<open>onProgress\<close>, \<open>then\<close> and
  \<open>catch\<close> (lines 57-76).
\<close>

fun on_label :: "nat \<Rightarrow> scan_label \<Rightarrow> coordinator \<Rightarrow> coordinator" where
  "on_label i (Progress t p) c =
     broadcast i (ProgressEvent t (Some p))
       (update_scan i (\<lambda>scan. scan\<lparr>scan_tree := Some t, scan_progress := Some p\<rparr>) c)"
| "on_label i (Resolve t) c =
     broadcast i (DoneEvent t)
       (update_scan i (\<lambda>scan. scan\<lparr>scan_tree := Some t, scan_done := True,
                                    scan_progress := None\<rparr>) c)"
| "on_label i RejectAbort c = c"
| "on_label i (RejectError msg) c =
     broadcast i (ErrorEvent msg)
       (update_scan i (\<lambda>scan. scan\<lparr>scan_error := Some msg, scan_done := True\<rparr>) c)"
| "on_label i Internal c = c"
| "on_label i SignalAbort c = c"

inductive coord_step :: "filesystem \<Rightarrow> coordinator \<Rightarrow> coordinator \<Rightarrow> bool"
  for fs :: filesystem where
  request: "coord_step fs c (api_scan resolved l c)"
| disconnect: "coord_step fs c (c\<lparr>sseListeners := removeAll l (sseListeners c)\<rparr>)"
| scan_event:
    "i < length (scans c) \<Longrightarrow> scan_step fs MAX_DEPTH (scan_run (scans c ! i)) lbl s' \<Longrightarrow>
     lbl \<noteq> SignalAbort \<Longrightarrow>
     coord_step fs c (on_label i lbl (update_scan i (\<lambda>scan. scan\<lparr>scan_run := s'\<rparr>) c))"

definition coord_reachable :: "filesystem \<Rightarrow> coordinator \<Rightarrow> bool" where
  "coord_reachable fs c = (coord_step fs)\<^sup>*\<^sup>* coordinator_init c"

definition events_of :: "nat \<Rightarrow> coordinator \<Rightarrow> (nat \<times> nat \<times> ScanEvent) list" where
  "events_of i c = filter (\<lambda>d. fst (snd d) = i) (delivered c)"

section \<open>Properties and examples\<close>

text \<open>Children sorted by size, largest first.\<close>

definition desc_sorted :: "TreeNode list \<Rightarrow> bool" where
  "desc_sorted cs = sorted_wrt (\<lambda>a b. size_n a \<ge> size_n b) cs"

text \<open>
  What the callback of \<open>entries.map\<close> in \<open>scanDirectory\<close> returns for one entry, and the
  children \<open>scanDirectory\<close> stores for a directory whose listing succeeded; both are read
  off the definition of \<open>scanDirectory\<close> (lemma \<open>scanDirectory_listed\<close>).
\<close>

definition scan_entry ::
  "filesystem \<Rightarrow> string \<Rightarrow> nat \<Rightarrow> nat \<Rightarrow> dirent \<Rightarrow> TreeNode option \<times> call list" where
  "scan_entry fs dirPath maxDepth depth entry =
     (if isSymbolicLink entry then (None, [])
      else if isDirectory entry then
        (Some (fst (scanDirectory fs (join dirPath (d_name entry)) maxDepth (depth + 1))),
         snd (scanDirectory fs (join dirPath (d_name entry)) maxDepth (depth + 1)))
      else if isFile entry then
        (case stat fs (join dirPath (d_name entry)) of
           Some sz \<Rightarrow> (Some (file_node (d_name entry) (join dirPath (d_name entry)) sz),
                       [[AcquireSlot, Syscall Stat (join dirPath (d_name entry)), ReleaseSlot]])
         | None \<Rightarrow> (None, [[AcquireSlot, Syscall Stat (join dirPath (d_name entry)), ReleaseSlot]]))
      else (None, []))"

definition scan_children :: "filesystem \<Rightarrow> string \<Rightarrow> nat \<Rightarrow> nat \<Rightarrow> dirent list \<Rightarrow> TreeNode list" where
  "scan_children fs dirPath maxDepth depth entries =
     (let children0 = sort_desc (List.map_filter fst (map (scan_entry fs dirPath maxDepth depth) entries))
      in if depth \<ge> CHILD_LIMIT_DEPTH \<and> length children0 > MAX_CHILDREN
         then limit_children dirPath children0 else children0)"

text \<open>
  A directory \<open>/r/a/b\<close> two levels below the scanned root that holds 32 files of one
  byte each.
\<close>

definition fs_deep :: filesystem where
  "fs_deep =
     \<lparr>readdir = (\<lambda>p. if p = ''/r'' then Some [\<lparr>d_name = ''a'', d_type = DDirectory\<rparr>]
                     else if p = ''/r/a'' then Some [\<lparr>d_name = ''b'', d_type = DDirectory\<rparr>]
                     else if p = ''/r/a/b''
                     then Some (map (\<lambda>i. \<lparr>d_name = show_nat i, d_type = DFile\<rparr>) [0..<32])
                     else None),
      stat = (\<lambda>p. Some 1),
      du_out = (\<lambda>p. None)\<rparr>"


text \<open>
  The number of \<open>fillNode\<close> calls, at and below a call, that have not yet reached their
  increment of \<open>dirsCompleted\<close>.
\<close>

fun pending :: "fill \<Rightarrow> nat" where
  "pending AwaitDu = 1"
| "pending AwaitReaddir = 1"
| "pending (AwaitAll fills stats) = 1 + sum_list (map pending fills)"
| "pending Returned = 0"

definition counters_ok :: "scan_state \<Rightarrow> bool" where
  "counters_ok s =
     (dirsCompleted (progress (sh s)) + pending (walk s) \<le> dirsFound (progress (sh s))
      \<and> (\<not> aborted (sh s) \<longrightarrow>
           dirsFound (progress (sh s)) = dirsCompleted (progress (sh s)) + pending (walk s)))"

text \<open>
  A small file system for examples: \<open>/x\<close> holds the file \<open>a\<close> (10 bytes), the directory
  \<open>b\<close> and the symbolic link \<open>l\<close>; \<open>/x/b\<close> holds the file \<open>c\<close> (20 bytes).
  \<open>small_done\<close> is the state of the streaming scan of \<open>/x\<close> when the walk has returned.
\<close>

definition fs_small :: filesystem where
  "fs_small =
     \<lparr>readdir = (\<lambda>p. if p = ''/x''
                     then Some [\<lparr>d_name = ''a'', d_type = DFile\<rparr>,
                                \<lparr>d_name = ''b'', d_type = DDirectory\<rparr>,
                                \<lparr>d_name = ''l'', d_type = DSymlink\<rparr>]
                     else if p = ''/x/b'' then Some [\<lparr>d_name = ''c'', d_type = DFile\<rparr>]
                     else None),
      stat = (\<lambda>p. if p = ''/x/a'' then Some 10 else if p = ''/x/b/c'' then Some 20 else None),
      du_out = (\<lambda>p. None)\<rparr>"

definition small_tree :: TreeNode where
  "small_tree =
     TreeNode ''x'' ''/x'' 0 Directory None
       (Some [TreeNode ''b'' ''/x/b'' 0 Directory None
                (Some [TreeNode ''c'' ''/x/b/c'' 20 File None None None]) None,
              TreeNode ''a'' ''/x/a'' 10 File None None None]) None"

definition small_done :: scan_state where
  "small_done =
     \<lparr>sh = \<lparr>progress = \<lparr>dirsFound = 2, dirsCompleted = 2\<rparr>, dirty = True, aborted = False\<rparr>,
      root = small_tree, walk = Returned, finished = False\<rparr>"

definition small_sh :: "nat \<Rightarrow> shared" where
  "small_sh k = \<lparr>progress = \<lparr>dirsFound = 2, dirsCompleted = k\<rparr>, dirty = True, aborted = False\<rparr>"

definition small_b :: "TreeNode list option \<Rightarrow> TreeNode" where
  "small_b ch = TreeNode ''b'' ''/x/b'' 0 Directory None ch None"

definition small_x :: "TreeNode list \<Rightarrow> TreeNode" where
  "small_x cs = TreeNode ''x'' ''/x'' 0 Directory None (Some cs) None"

definition small_a :: TreeNode where
  "small_a = TreeNode ''a'' ''/x/a'' 10 File None None None"

definition small_c :: TreeNode where
  "small_c = TreeNode ''c'' ''/x/b/c'' 20 File None None None"

definition small_state :: "shared \<Rightarrow> TreeNode \<Rightarrow> fill \<Rightarrow> scan_state" where
  "small_state g r f = \<lparr>sh = g, root = r, walk = f, finished = False\<rparr>"

text \<open>
  The working tree never holds an expanded, empty directory with a size other than zero,
  and a node whose \<open>fillNode\<close> call is still waiting for \<open>du\<close> or \<open>readdir\<close> has no
  children yet.
\<close>

definition empty_zero :: "TreeNode \<Rightarrow> bool" where
  "empty_zero t = (\<forall>m\<in>set (nodes t). children m = Some [] \<longrightarrow> size_n m = 0)"

fun fill_wf :: "TreeNode \<Rightarrow> fill \<Rightarrow> bool" and fills_wf :: "TreeNode list \<Rightarrow> fill list \<Rightarrow> bool" where
  "fill_wf node AwaitDu = (children node = None)"
| "fill_wf node AwaitReaddir = (children node = None \<and> size_n node = 0)"
| "fill_wf node (AwaitAll fills stats) =
     (case children node of None \<Rightarrow> False | Some cs \<Rightarrow> size_n node = 0 \<and> fills_wf cs fills)"
| "fill_wf node Returned = True"
| "fills_wf cs [] = True"
| "fills_wf [] (f # fs) = False"
| "fills_wf (c # cs) (f # fs) = (fill_wf c f \<and> fills_wf cs fs)"

definition scan_wf :: "scan_state \<Rightarrow> bool" where
  "scan_wf s = (empty_zero (root s) \<and> fill_wf (root s) (walk s))"

text \<open>
  The children of a node in the order of their recomputed sizes, the recomputed sizes of
  those beyond the first \<open>MAX_CHILDREN\<close> (the folded children), and their total as
  \<open>reduce\<close> adds it. \<open>cap_tree\<close> is a working tree whose directory \<open>/r/a/b\<close>, at depth 2,
  has a file of 1 byte, a file of 2 bytes and 30 files of 5 bytes. \<open>fs_huge\<close> has 31 files
  of \<open>2^53\<close> bytes and a file of 1 byte in \<open>/r/a/b\<close>, and \<open>huge_tree\<close> is its working tree.
\<close>

definition ranked :: "TreeNode list \<Rightarrow> TreeNode list" where
  "ranked cs = sort_key (\<lambda>c. - size_n (recalcSizes c)) cs"

definition folded_sizes :: "TreeNode list \<Rightarrow> int list" where
  "folded_sizes cs = map (\<lambda>c. size_n (recalcSizes c)) (drop MAX_CHILDREN (ranked cs))"

definition folded_size :: "TreeNode list \<Rightarrow> int" where
  "folded_size cs = js_sum (folded_sizes cs)"

definition sized_file :: "int \<Rightarrow> nat \<Rightarrow> TreeNode" where
  "sized_file sz i = file_node (show_nat i) (join ''/r/a/b'' (show_nat i)) sz"

definition cap_dir :: TreeNode where
  "cap_dir =
     TreeNode ''b'' ''/r/a/b'' 0 Directory None
       (Some (sized_file 1 0 # sized_file 2 1 # map (sized_file 5) [2..<32])) None"

definition cap_mid :: TreeNode where
  "cap_mid = TreeNode ''a'' ''/r/a'' 0 Directory None (Some [cap_dir]) None"

definition cap_tree :: TreeNode where
  "cap_tree = TreeNode ''r'' ''/r'' 0 Directory None (Some [cap_mid]) None"

definition fs_huge :: filesystem where
  "fs_huge =
     \<lparr>readdir = (\<lambda>p. if p = ''/r'' then Some [\<lparr>d_name = ''a'', d_type = DDirectory\<rparr>]
                     else if p = ''/r/a'' then Some [\<lparr>d_name = ''b'', d_type = DDirectory\<rparr>]
                     else if p = ''/r/a/b''
                     then Some (map (\<lambda>i. \<lparr>d_name = show_nat i, d_type = DFile\<rparr>) [0..<31]
                                @ [\<lparr>d_name = ''z'', d_type = DFile\<rparr>])
                     else None),
      stat = (\<lambda>p. if p = ''/r/a/b/z'' then Some 1 else Some 9007199254740992),
      du_out = (\<lambda>p. None)\<rparr>"

definition huge_dir :: TreeNode where
  "huge_dir =
     TreeNode ''b'' ''/r/a/b'' 0 Directory None
       (Some (map (sized_file 9007199254740992) [0..<31] @ [file_node ''z'' ''/r/a/b/z'' 1])) None"

definition huge_mid :: TreeNode where
  "huge_mid = TreeNode ''a'' ''/r/a'' 0 Directory None (Some [huge_dir]) None"

definition huge_tree :: TreeNode where
  "huge_tree = TreeNode ''r'' ''/r'' 0 Directory None (Some [huge_mid]) None"

text \<open>
  \<open>fs_pair\<close>: the directory \<open>/h\<close> holds the file \<open>a\<close> of \<open>2^53\<close> bytes and the file \<open>b\<close> of
  1 byte. \<open>pair_tree\<close> is the working tree of its scan and \<open>pair_done\<close> the state in which
  the walk has returned.
\<close>

definition fs_pair :: filesystem where
  "fs_pair =
     \<lparr>readdir = (\<lambda>p. if p = ''/h''
                     then Some [\<lparr>d_name = ''a'', d_type = DFile\<rparr>, \<lparr>d_name = ''b'', d_type = DFile\<rparr>]
                     else None),
      stat = (\<lambda>p. if p = ''/h/a'' then Some 9007199254740992
                  else if p = ''/h/b'' then Some 1 else None),
      du_out = (\<lambda>p. None)\<rparr>"

definition pair_a :: TreeNode where
  "pair_a = TreeNode ''a'' ''/h/a'' 9007199254740992 File None None None"

definition pair_b :: TreeNode where
  "pair_b = TreeNode ''b'' ''/h/b'' 1 File None None None"

definition pair_tree :: TreeNode where
  "pair_tree = TreeNode ''h'' ''/h'' 0 Directory None (Some [pair_a, pair_b]) None"

definition pair_state :: "shared \<Rightarrow> TreeNode \<Rightarrow> fill \<Rightarrow> scan_state" where
  "pair_state g r f = \<lparr>sh = g, root = r, walk = f, finished = False\<rparr>"

definition pair_done :: scan_state where
  "pair_done =
     \<lparr>sh = \<lparr>progress = \<lparr>dirsFound = 1, dirsCompleted = 1\<rparr>, dirty = True, aborted = False\<rparr>,
      root = pair_tree, walk = Returned, finished = False\<rparr>"

text \<open>
  The invariant of the limiter in use, the state after \<open>n\<close> callers arrived and none
  released, and the state where 64 callers hold a slot and caller 64 waits.
\<close>

definition limiter_inv :: "limiter_state \<Rightarrow> bool" where
  "limiter_inv s =
     (finite (holders s) \<and> int (card (holders s)) = active (lim s)
      \<and> active (lim s) \<le> MAX_CONCURRENT
      \<and> (queue (lim s) \<noteq> [] \<longrightarrow> active (lim s) = MAX_CONCURRENT)
      \<and> sorted_wrt (<) (queue (lim s))
      \<and> (\<forall>w\<in>set (queue (lim s)). w < ticket s \<and> w \<notin> holders s)
      \<and> (\<forall>w\<in>holders s. w < ticket s))"

definition after_acquires :: "nat \<Rightarrow> limiter_state" where
  "after_acquires n = \<lparr>lim = \<lparr>active = int n, queue = []\<rparr>, holders = {..<n}, ticket = n\<rparr>"

definition full_waiting :: limiter_state where
  "full_waiting = \<lparr>lim = \<lparr>active = 64, queue = [64]\<rparr>, holders = {..<64}, ticket = 65\<rparr>"

text \<open>
  Whether the signal of scan \<open>i\<close> has fired; the invariant of the coordinator (the active
  scan is not cancelled, every other scan is finished or cancelled); the scan object
  \<open>startBackgroundScan\<close> creates and the cancellation it performs first.
\<close>

definition scan_aborted :: "coordinator \<Rightarrow> nat \<Rightarrow> bool" where
  "scan_aborted c i = aborted (sh (scan_run (scans c ! i)))"

definition coord_inv :: "coordinator \<Rightarrow> bool" where
  "coord_inv c =
     ((\<forall>a. activeScan c = Some a \<longrightarrow> a < length (scans c) \<and> \<not> scan_aborted c a)
      \<and> (\<forall>i<length (scans c). activeScan c \<noteq> Some i \<longrightarrow>
             scan_done (scans c ! i) \<or> scan_aborted c i))"

definition new_scan :: "string \<Rightarrow> ActiveScan" where
  "new_scan dirPath =
     \<lparr>scan_path = dirPath, scan_tree = None, scan_progress = None, scan_done = False,
      scan_error = None, scan_run = scan_init dirPath MAX_DEPTH False\<rparr>"

definition supersede :: "coordinator \<Rightarrow> coordinator" where
  "supersede c =
     (case activeScan c of
        Some a \<Rightarrow> if \<not> scan_done (scans c ! a) then abort_scan a c else c
      | None \<Rightarrow> c)"

text \<open>What stays as it is for scan \<open>i\<close> between two states of the coordinator.\<close>

definition silenced :: "nat \<Rightarrow> coordinator \<Rightarrow> coordinator \<Rightarrow> bool" where
  "silenced i c c' =
     (i < length (scans c') \<and> scan_aborted c' i \<and> events_of i c' = events_of i c
      \<and> scan_done (scans c' ! i) = scan_done (scans c ! i)
      \<and> scan_error (scans c' ! i) = scan_error (scans c ! i)
      \<and> scan_tree (scans c' ! i) = scan_tree (scans c ! i))"

text \<open>
  A file system in which every directory holds one subdirectory \<open>d\<close>, so that it is
  infinitely deep, and a run of the coordinator on it: listener 0 requests \<open>/a\<close>, the
  scan lists \<open>/a\<close> and publishes a snapshot (\<open>cx3\<close>); listener 1 requests \<open>/b\<close>, which
  cancels the first scan (\<open>cx4\<close>); the second scan lists \<open>/b\<close> and publishes a snapshot
  (\<open>cx6\<close>). \<open>cx_failed\<close> is a coordinator whose scan of \<open>/a\<close> finished with an error.
\<close>

definition fs_chain :: filesystem where
  "fs_chain =
     \<lparr>readdir = (\<lambda>p. Some [\<lparr>d_name = ''d'', d_type = DDirectory\<rparr>]),
      stat = (\<lambda>p. None), du_out = (\<lambda>p. None)\<rparr>"

definition listed_root :: "string \<Rightarrow> TreeNode" where
  "listed_root p = set_children [dir_node ''d'' (join p ''d'')] (dir_node (dir_name p) p)"

definition after_listing :: "string \<Rightarrow> bool \<Rightarrow> bool \<Rightarrow> scan_state" where
  "after_listing p dty ab =
     \<lparr>sh = \<lparr>progress = \<lparr>dirsFound = 2, dirsCompleted = 0\<rparr>, dirty = dty, aborted = ab\<rparr>,
      root = listed_root p, walk = AwaitAll [AwaitReaddir] [], finished = False\<rparr>"

definition scan_obj :: "string \<Rightarrow> TreeNode option \<Rightarrow> ScanProgress option \<Rightarrow> scan_state \<Rightarrow> ActiveScan" where
  "scan_obj p t pr run =
     \<lparr>scan_path = p, scan_tree = t, scan_progress = pr, scan_done = False, scan_error = None,
      scan_run = run\<rparr>"

definition progress2 :: ScanProgress where
  "progress2 = \<lparr>dirsFound = 2, dirsCompleted = 0\<rparr>"

definition cx1 :: coordinator where
  "cx1 = \<lparr>scans = [scan_obj ''/a'' None None (scan_init ''/a'' MAX_DEPTH False)],
          activeScan = Some 0, sseListeners = [0], delivered = []\<rparr>"

definition cx2 :: coordinator where
  "cx2 = \<lparr>scans = [scan_obj ''/a'' None None (after_listing ''/a'' True False)],
          activeScan = Some 0, sseListeners = [0], delivered = []\<rparr>"

definition cx3 :: coordinator where
  "cx3 = \<lparr>scans = [scan_obj ''/a'' (Some (snapshot (listed_root ''/a''))) (Some progress2)
                    (after_listing ''/a'' False False)],
          activeScan = Some 0, sseListeners = [0],
          delivered = [(0, 0, ProgressEvent (snapshot (listed_root ''/a'')) (Some progress2))]\<rparr>"

definition cx4 :: coordinator where
  "cx4 = \<lparr>scans = [scan_obj ''/a'' (Some (snapshot (listed_root ''/a''))) (Some progress2)
                    (after_listing ''/a'' False True),
                  scan_obj ''/b'' None None (scan_init ''/b'' MAX_DEPTH False)],
          activeScan = Some 1, sseListeners = [0, 1],
          delivered = [(0, 0, ProgressEvent (snapshot (listed_root ''/a'')) (Some progress2))]\<rparr>"

definition cx5 :: coordinator where
  "cx5 = \<lparr>scans = [scan_obj ''/a'' (Some (snapshot (listed_root ''/a''))) (Some progress2)
                    (after_listing ''/a'' False True),
                  scan_obj ''/b'' None None (after_listing ''/b'' True False)],
          activeScan = Some 1, sseListeners = [0, 1],
          delivered = [(0, 0, ProgressEvent (snapshot (listed_root ''/a'')) (Some progress2))]\<rparr>"

definition cx6 :: coordinator where
  "cx6 = \<lparr>scans = [scan_obj ''/a'' (Some (snapshot (listed_root ''/a''))) (Some progress2)
                    (after_listing ''/a'' False True),
                  scan_obj ''/b'' (Some (snapshot (listed_root ''/b''))) (Some progress2)
                    (after_listing ''/b'' False False)],
          activeScan = Some 1, sseListeners = [0, 1],
          delivered = [(0, 0, ProgressEvent (snapshot (listed_root ''/a'')) (Some progress2)),
                       (0, 1, ProgressEvent (snapshot (listed_root ''/b'')) (Some progress2)),
                       (1, 1, ProgressEvent (snapshot (listed_root ''/b'')) (Some progress2))]\<rparr>"


text \<open>
  The two callbacks inside \<open>fillNode\<close>, read off its definition (lemma
  \<open>fillNode_listed\<close>): the step of the fold over the subdirectories and the \<open>stat\<close> of
  one file. \<open>estimate\<close> is the size \<open>fastDirSize\<close> returns without a signal, and
  \<open>cut_ok\<close> says of a node at depth \<open>d\<close> that \<open>d \<le> maxDepth\<close> and that a directory at
  depth \<open>maxDepth\<close> is truncated, has no children and has the estimated size.
\<close>

definition fill_subdir ::
  "filesystem \<Rightarrow> nat \<Rightarrow> nat \<Rightarrow> string \<Rightarrow> TreeNode list \<times> ScanProgress \<times> call list \<Rightarrow> dirent
   \<Rightarrow> TreeNode list \<times> ScanProgress \<times> call list" where
  "fill_subdir fs maxDepth depth dirPath acc entry =
     (fst acc @ [fst (fillNode fs maxDepth (depth + 1)
                       (dir_node (d_name entry) (join dirPath (d_name entry))) (fst (snd acc)))],
      fst (snd (fillNode fs maxDepth (depth + 1)
                  (dir_node (d_name entry) (join dirPath (d_name entry))) (fst (snd acc)))),
      snd (snd acc) @
      snd (snd (fillNode fs maxDepth (depth + 1)
                  (dir_node (d_name entry) (join dirPath (d_name entry))) (fst (snd acc)))))"

definition stat_file :: "filesystem \<Rightarrow> string \<Rightarrow> dirent \<Rightarrow> TreeNode list \<times> call" where
  "stat_file fs dirPath entry =
     (case stat fs (join dirPath (d_name entry)) of
        Some sz \<Rightarrow> ([file_node (d_name entry) (join dirPath (d_name entry)) sz],
                    [AcquireSlot, Syscall Stat (join dirPath (d_name entry)), ReleaseSlot])
      | None \<Rightarrow> ([], [AcquireSlot, Syscall Stat (join dirPath (d_name entry)), ReleaseSlot]))"

definition estimate :: "filesystem \<Rightarrow> string \<Rightarrow> int" where
  "estimate fs p = snd (fastDirSize fs p False False)"

definition cut_ok :: "filesystem \<Rightarrow> nat \<Rightarrow> nat \<times> TreeNode \<Rightarrow> bool" where
  "cut_ok fs maxDepth dm =
     (fst dm \<le> maxDepth
      \<and> (fst dm = maxDepth \<and> type (snd dm) = Directory \<longrightarrow>
           truncated (snd dm) = Some True \<and> children (snd dm) = None
           \<and> size_n (snd dm) = estimate fs (path (snd dm))))"

text \<open>
  The same for a walk in progress: a call waiting for \<open>du\<close> is at depth \<open>maxDepth\<close> on
  a truncated directory without children, a call waiting for \<open>readdir\<close> or for its
  entries is above \<open>maxDepth\<close>, and what has returned satisfies \<open>cut_ok\<close>.
\<close>

fun cut_inv :: "filesystem \<Rightarrow> nat \<Rightarrow> nat \<Rightarrow> TreeNode \<Rightarrow> fill \<Rightarrow> bool"
  and cuts_inv :: "filesystem \<Rightarrow> nat \<Rightarrow> nat \<Rightarrow> TreeNode list \<Rightarrow> fill list \<Rightarrow> bool" where
  "cut_inv fs m d node AwaitDu =
     (d = m \<and> type node = Directory \<and> truncated node = Some True \<and> children node = None)"
| "cut_inv fs m d node AwaitReaddir = (d < m \<and> children node = None)"
| "cut_inv fs m d node (AwaitAll fills stats) =
     (d < m \<and> (case children node of None \<Rightarrow> False | Some cs \<Rightarrow> cuts_inv fs m (Suc d) cs fills))"
| "cut_inv fs m d node Returned = (\<forall>dm\<in>set (nodes_at d node). cut_ok fs m dm)"
| "cuts_inv fs m d cs [] = (\<forall>c\<in>set cs. \<forall>dm\<in>set (nodes_at d c). cut_ok fs m dm)"
| "cuts_inv fs m d [] (f # fs') = False"
| "cuts_inv fs m d (c # cs) (f # fs') = (cut_inv fs m d c f \<and> cuts_inv fs m d cs fs')"

definition scan_cut :: "filesystem \<Rightarrow> nat \<Rightarrow> scan_state \<Rightarrow> bool" where
  "scan_cut fs maxDepth s = (\<not> aborted (sh s) \<longrightarrow> cut_inv fs maxDepth 0 (root s) (walk s))"

text \<open>
  Every directory holds one subdirectory \<open>d\<close>, and \<open>du -sk\<close> prints 12 kilobytes for
  every path. \<open>cut_done\<close> is the state of the scan of \<open>/a\<close> with \<open>maxDepth = 1\<close> when the
  walk has returned.
\<close>

definition fs_sized :: filesystem where
  "fs_sized =
     \<lparr>readdir = (\<lambda>p. Some [\<lparr>d_name = ''d'', d_type = DDirectory\<rparr>]),
      stat = (\<lambda>p. None),
      du_out = (\<lambda>p. Some (''12'' @ [CHR 0x09] @ p))\<rparr>"

definition cut_leaf :: TreeNode where
  "cut_leaf = TreeNode ''d'' ''/a/d'' 12288 Directory None None (Some True)"

definition cut_root :: TreeNode where
  "cut_root = TreeNode ''a'' ''/a'' 0 Directory None (Some [cut_leaf]) None"

definition cut_done :: scan_state where
  "cut_done =
     \<lparr>sh = \<lparr>progress = \<lparr>dirsFound = 2, dirsCompleted = 2\<rparr>, dirty = True, aborted = False\<rparr>,
      root = cut_root, walk = Returned, finished = False\<rparr>"

text \<open>
  A call is scoped by a slot when each of its system calls has \<open>acquireSlot\<close> before it
  and \<open>releaseSlot\<close> after it in the events of that call. \<open>call_shape\<close> lists the
  three forms of a call of the walkers.
\<close>

definition slot_scoped :: "event list \<Rightarrow> bool" where
  "slot_scoped call =
     (\<forall>i<length call. \<forall>k p. call ! i = Syscall k p \<longrightarrow>
        AcquireSlot \<in> set (take i call) \<and> ReleaseSlot \<in> set (drop (Suc i) call))"

definition call_shape :: "event list \<Rightarrow> bool" where
  "call_shape call =
     ((\<exists>p. call = [AcquireSlot, Syscall Readdir p, ReleaseSlot])
      \<or> (\<exists>p. call = [AcquireSlot, Syscall Stat p, ReleaseSlot])
      \<or> (\<exists>p. call = [Syscall DuExec p]))"

text \<open>
  Symbolic links. A node comes from an entry of the listing of \<open>q\<close> when the entry is not
  a symbolic link, the node's path is the entry's path and the node's type is the entry's
  type. The aggregate of the folded children is the file node at \<open>q/__other__\<close>. A tree
  skips the links when every child of every node comes from an entry of the listing of
  its parent's path or is the aggregate; so every node but the root, which is the
  directory the caller asked for, is made from an entry that is not a symbolic link.
  \<open>link_inv\<close> is the same property of a working tree and the state of its \<open>fillNode\<close>
  calls: the files still awaited are plain files of the listing. \<open>no_link_nodes\<close> says it
  with the paths of the links: where the names of a listing are distinct, no child other
  than the aggregate has the path of a symbolic link of that listing.
\<close>

definition from_entry :: "filesystem \<Rightarrow> string \<Rightarrow> TreeNode \<Rightarrow> bool" where
  "from_entry fs q c =
     (case readdir fs q of
        None \<Rightarrow> False
      | Some es \<Rightarrow>
          (\<exists>e\<in>set es. \<not> isSymbolicLink e \<and> path c = join q (d_name e)
             \<and> (isDirectory e \<and> type c = Directory \<or> isFile e \<and> type c = File)))"

definition is_other :: "string \<Rightarrow> TreeNode \<Rightarrow> bool" where
  "is_other q c = (path c = q @ ''/__other__'' \<and> type c = File \<and> children c = None)"

definition kids_ok :: "filesystem \<Rightarrow> TreeNode \<Rightarrow> bool" where
  "kids_ok fs m =
     (case children m of
        None \<Rightarrow> True
      | Some cs \<Rightarrow> (\<forall>c\<in>set cs. from_entry fs (path m) c \<or> is_other (path m) c))"

definition links_skipped :: "filesystem \<Rightarrow> TreeNode \<Rightarrow> bool" where
  "links_skipped fs t = (\<forall>m\<in>set (nodes t). kids_ok fs m)"

definition plain_in :: "filesystem \<Rightarrow> string \<Rightarrow> dirent \<Rightarrow> bool" where
  "plain_in fs q e =
     (case readdir fs q of None \<Rightarrow> False | Some es \<Rightarrow> e \<in> set es \<and> is_plain_file e)"

fun link_inv :: "filesystem \<Rightarrow> TreeNode \<Rightarrow> fill \<Rightarrow> bool"
  and links_inv :: "filesystem \<Rightarrow> string \<Rightarrow> TreeNode list \<Rightarrow> fill list \<Rightarrow> bool" where
  "link_inv fs node AwaitDu = links_skipped fs node"
| "link_inv fs node AwaitReaddir = links_skipped fs node"
| "link_inv fs node (AwaitAll fills stats) =
     (case children node of
        None \<Rightarrow> False
      | Some cs \<Rightarrow> (\<forall>e\<in>set stats. plain_in fs (path node) e) \<and> links_inv fs (path node) cs fills)"
| "link_inv fs node Returned = links_skipped fs node"
| "links_inv fs q cs [] =
     (\<forall>c\<in>set cs. (from_entry fs q c \<or> is_other q c) \<and> links_skipped fs c)"
| "links_inv fs q [] (f # fs') = False"
| "links_inv fs q (c # cs) (f # fs') =
     (from_entry fs q c \<and> link_inv fs c f \<and> links_inv fs q cs fs')"

definition scan_links :: "filesystem \<Rightarrow> scan_state \<Rightarrow> bool" where
  "scan_links fs s = link_inv fs (root s) (walk s)"

text \<open>
  How many steps a \<open>fillNode\<close> call on the directory \<open>p\<close> at \<open>depth\<close> can make, with the
  calls below it: one for \<open>du\<close> at the depth limit; else one for a \<open>readdir\<close> that throws,
  or one for the listing, one for each \<open>stat\<close>, the steps of every subdirectory and one
  for the return. Symbolic links cost nothing. \<open>remaining\<close> is the number of steps a
  suspended call still has to make, and \<open>walker_steps fs maxDepth s k s'\<close> is a run from \<open>s\<close>
  to \<open>s'\<close> in which the walker makes \<open>k\<close> steps, with any number of timer ticks, signals
  and the completion between them.
\<close>

function fill_cost :: "filesystem \<Rightarrow> nat \<Rightarrow> nat \<Rightarrow> string \<Rightarrow> nat" where
  "fill_cost fs maxDepth depth p =
     (if maxDepth \<le> depth then 1
      else case readdir fs p of
             None \<Rightarrow> 1
           | Some es \<Rightarrow>
               2 + length (filter is_plain_file es)
               + sum_list (map (\<lambda>e. fill_cost fs maxDepth (depth + 1) (join p (d_name e)))
                            (filter is_subdir es)))"
  by pat_completeness auto
termination
  by (relation "measure (\<lambda>(fs, maxDepth, depth, p). maxDepth - depth)") auto

definition listing_cost :: "filesystem \<Rightarrow> nat \<Rightarrow> nat \<Rightarrow> string \<Rightarrow> nat" where
  "listing_cost fs maxDepth depth p =
     (case readdir fs p of
        None \<Rightarrow> 1
      | Some es \<Rightarrow>
          2 + length (filter is_plain_file es)
          + sum_list (map (\<lambda>e. fill_cost fs maxDepth (depth + 1) (join p (d_name e)))
                       (filter is_subdir es)))"

fun remaining :: "filesystem \<Rightarrow> nat \<Rightarrow> nat \<Rightarrow> TreeNode \<Rightarrow> fill \<Rightarrow> nat"
  and remainings :: "filesystem \<Rightarrow> nat \<Rightarrow> nat \<Rightarrow> TreeNode list \<Rightarrow> fill list \<Rightarrow> nat" where
  "remaining fs m d node AwaitDu = 1"
| "remaining fs m d node AwaitReaddir = listing_cost fs m d (path node)"
| "remaining fs m d node (AwaitAll fills stats) =
     1 + length stats
     + (case children node of None \<Rightarrow> 0 | Some cs \<Rightarrow> remainings fs m (Suc d) cs fills)"
| "remaining fs m d node Returned = 0"
| "remainings fs m d cs [] = 0"
| "remainings fs m d [] (f # fs') = 0"
| "remainings fs m d (c # cs) (f # fs') = remaining fs m d c f + remainings fs m d cs fs'"

inductive walker_steps :: "filesystem \<Rightarrow> nat \<Rightarrow> scan_state \<Rightarrow> nat \<Rightarrow> scan_state \<Rightarrow> bool"
  for fs :: filesystem and maxDepth :: nat where
  none: "walker_steps fs maxDepth s 0 s"
| walker:
    "walker_steps fs maxDepth s k s' \<Longrightarrow>
     fill_step fs maxDepth 0 (sh s', root s', walk s') (g', r', f') \<Longrightarrow>
     walker_steps fs maxDepth s (Suc k) (s'\<lparr>sh := g', root := r', walk := f'\<rparr>)"
| other:
    "walker_steps fs maxDepth s k s' \<Longrightarrow> scan_step fs maxDepth s' l s'' \<Longrightarrow>
     root s'' = root s' \<Longrightarrow> walk s'' = walk s' \<Longrightarrow>
     walker_steps fs maxDepth s k s''"

definition link_paths :: "filesystem \<Rightarrow> string \<Rightarrow> string list" where
  "link_paths fs q =
     (case readdir fs q of
        None \<Rightarrow> []
      | Some es \<Rightarrow> map (\<lambda>e. join q (d_name e)) (filter isSymbolicLink es))"

definition unique_names :: "filesystem \<Rightarrow> string \<Rightarrow> bool" where
  "unique_names fs q = (case readdir fs q of None \<Rightarrow> True | Some es \<Rightarrow> distinct (map d_name es))"

definition no_link_nodes :: "filesystem \<Rightarrow> TreeNode \<Rightarrow> bool" where
  "no_link_nodes fs t =
     (\<forall>m\<in>set (nodes t). unique_names fs (path m) \<longrightarrow>
        (case children m of
           None \<Rightarrow> True
         | Some cs \<Rightarrow> (\<forall>c\<in>set cs. is_other (path m) c \<or> path c \<notin> set (link_paths fs (path m)))))"

text \<open>
  A symbolic link cycle: \<open>/c\<close> holds the file \<open>f\<close> and the symbolic link \<open>loop\<close> to \<open>/c\<close>
  itself, so every path \<open>/c/loop/.../loop\<close> lists the same two entries.
\<close>

definition fs_cycle :: filesystem where
  "fs_cycle =
     \<lparr>readdir = (\<lambda>p. Some [\<lparr>d_name = ''f'', d_type = DFile\<rparr>,
                             \<lparr>d_name = ''loop'', d_type = DSymlink\<rparr>]),
      stat = (\<lambda>p. Some 5),
      du_out = (\<lambda>p. None)\<rparr>"

definition cycle_tree :: TreeNode where
  "cycle_tree =
     TreeNode ''c'' ''/c'' 0 Directory None
       (Some [TreeNode ''f'' ''/c/f'' 5 File None None None]) None"

definition cycle_done :: scan_state where
  "cycle_done =
     \<lparr>sh = \<lparr>progress = \<lparr>dirsFound = 1, dirsCompleted = 1\<rparr>, dirty = True, aborted = False\<rparr>,
      root = cycle_tree, walk = Returned, finished = False\<rparr>"

definition cycle_state :: "shared \<Rightarrow> TreeNode \<Rightarrow> fill \<Rightarrow> scan_state" where
  "cycle_state g r f = \<lparr>sh = g, root = r, walk = f, finished = False\<rparr>"


section \<open>Basic facts\<close>

declare scanDirectory.simps [simp del] fillNode.simps [simp del] show_nat.simps [simp del]

lemma node_updates [simp]:
  "children (set_size v n) = children n" "size_n (set_size v n) = v"
  "children (set_children cs n) = Some cs" "size_n (set_children cs n) = size_n n"
  "children (set_truncated n) = children n" "size_n (set_truncated n) = size_n n"
  "path (set_size v n) = path n" "path (set_children cs n) = path n"
  "path (set_truncated n) = path n"
  "name (set_size v n) = name n" "name (set_children cs n) = name n"
  "name (set_truncated n) = name n"
  "type (set_size v n) = type n" "type (set_children cs n) = type n"
  "type (set_truncated n) = type n"
  "truncated (set_size v n) = truncated n" "truncated (set_children cs n) = truncated n"
  "truncated (set_truncated n) = Some True"
  by (simp_all add: set_size_def set_children_def set_truncated_def)

lemma dir_node_sel [simp]:
  "children (dir_node nm p) = None" "size_n (dir_node nm p) = 0" "path (dir_node nm p) = p"
  "name (dir_node nm p) = nm" "type (dir_node nm p) = Directory" "truncated (dir_node nm p) = None"
  by (simp_all add: dir_node_def)

lemma file_node_sel [simp]:
  "children (file_node nm p s) = None" "size_n (file_node nm p s) = s" "path (file_node nm p s) = p"
  "name (file_node nm p s) = nm" "type (file_node nm p s) = File" "truncated (file_node nm p s) = None"
  by (simp_all add: file_node_def)

declare ulp.simps [simp del]

lemma ulp_small: "n < 2 ^ 53 \<Longrightarrow> ulp n = 1"
  by (subst ulp.simps) simp

lemma ulp_53: "ulp (2 ^ 53) = 2"
  by (subst ulp.simps) (simp add: ulp_small)

lemma to_double_exact: "n \<le> 2 ^ 53 \<Longrightarrow> to_double n = n"
proof (cases "n = 2 ^ 53")
  case True
  then show ?thesis using ulp_53 by (simp add: to_double_def Let_def)
next
  case False
  assume "n \<le> 2 ^ 53"
  with False have "n < 2 ^ 53" by simp
  then show ?thesis by (simp add: to_double_def ulp_small Let_def)
qed

lemma js_add_exact: "0 \<le> a + b \<Longrightarrow> a + b \<le> 2 ^ 53 \<Longrightarrow> js_add a b = a + b"
proof -
  assume a: "0 \<le> a + b" "a + b \<le> 2 ^ 53"
  then have "nat (a + b) \<le> 2 ^ 53" by (simp add: nat_le_iff)
  then show ?thesis using a by (simp add: js_add_def Let_def to_double_exact)
qed

lemma js_add_nonneg: "0 \<le> a + b \<Longrightarrow> 0 \<le> js_add a b"
  by (simp add: js_add_def Let_def)

lemma js_add_zero [simp]: "js_add 0 0 = 0"
  by (simp add: js_add_exact)

lemma js_sum_simps [simp]: "js_sum [] = 0"
  by (simp add: js_sum_def)

lemma sum_sizes_eq: "sum_sizes cs = js_sum (map size_n cs)"
proof -
  have "foldl (\<lambda>s c. js_add s (size_n c)) a cs = foldl js_add a (map size_n cs)" for a
    by (induction cs arbitrary: a) auto
  then show ?thesis by (simp add: sum_sizes_def js_sum_def)
qed

lemma foldl_js_add_exact:
  "0 \<le> a \<Longrightarrow> \<forall>x\<in>set xs. 0 \<le> x \<Longrightarrow> a + sum_list xs \<le> 2 ^ 53 \<Longrightarrow>
   foldl js_add a xs = a + sum_list xs"
proof (induction xs arbitrary: a)
  case Nil
  then show ?case by simp
next
  case (Cons x xs)
  have nn: "0 \<le> sum_list xs" using Cons.prems(2) by (simp add: sum_list_nonneg)
  have "js_add a x = a + x"
    using Cons.prems nn by (intro js_add_exact) auto
  moreover have "foldl js_add (a + x) xs = a + x + sum_list xs"
    using Cons.prems by (intro Cons.IH) auto
  ultimately show ?case by simp
qed

lemma js_sum_exact:
  "\<forall>x\<in>set xs. 0 \<le> x \<Longrightarrow> sum_list xs \<le> 2 ^ 53 \<Longrightarrow> js_sum xs = sum_list xs"
  using foldl_js_add_exact[of 0 xs] by (simp add: js_sum_def)

lemma clone_id: "clone n = n"
proof (induction n rule: clone.induct)
  case (1 nm p s t e ch tr)
  then have "map_option (map clone) ch = ch"
    by (cases ch) (auto simp: map_idI)
  then show ?case by simp
qed

lemma snapshot_eq: "snapshot w = snapshot_from 0 w"
  by (simp add: snapshot_def snapshot_from_def clone_id)

lemma insort_key_map:
  "insort_key f (g x) (map g xs) = map g (insort_key (\<lambda>a. f (g a)) x xs)"
  by (induction xs) auto

lemma sort_key_map: "sort_key f (map g xs) = map g (sort_key (\<lambda>a. f (g a)) xs)"
  by (induction xs) (auto simp: insort_key_map)

lemma set_sort_desc [simp]: "set (sort_desc cs) = set cs"
  by (simp add: sort_desc_def)

lemma length_sort_desc [simp]: "length (sort_desc cs) = length cs"
  by (simp add: sort_desc_def)

lemma sort_desc_Nil_iff [simp]: "sort_desc cs = [] \<longleftrightarrow> cs = []"
  by (metis length_sort_desc length_0_conv)

lemma mset_sort_desc [simp]: "mset (sort_desc cs) = mset cs"
  by (simp add: sort_desc_def)

lemma desc_sorted_sort_desc: "desc_sorted (sort_desc cs)"
proof -
  have "sorted (map (\<lambda>c. - size_n c) (sort_desc cs))"
    by (simp add: sort_desc_def)
  then show ?thesis
    by (simp add: desc_sorted_def sorted_wrt_map)
qed

lemma sort_desc_map:
  "sort_desc (map g cs) = map g (sort_key (\<lambda>c. - size_n (g c)) cs)"
  by (simp add: sort_desc_def sort_key_map)

text \<open>recalcSizes, by cases\<close>

lemma recalcSizes_leaf:
  "children n = None \<Longrightarrow> recalcSizes n = n"
  by (cases n) simp

lemma recalcSizes_empty:
  "children n = Some [] \<Longrightarrow> recalcSizes n = n"
  by (cases n) simp

lemma recalcSizes_children:
  "children n = Some cs \<Longrightarrow> cs \<noteq> [] \<Longrightarrow>
   recalcSizes n = TreeNode (name n) (path n) (sum_sizes (sort_desc (map recalcSizes cs)))
      (type n) (extension n) (Some (sort_desc (map recalcSizes cs))) (truncated n)"
  by (cases n) (simp add: Let_def)

lemma applyChildLimits_leaf:
  "children n = None \<Longrightarrow> applyChildLimits n d = n"
  by (cases n) simp

lemma applyChildLimits_empty:
  "children n = Some [] \<Longrightarrow> applyChildLimits n d = n"
  by (cases n) simp

lemma applyChildLimits_children:
  "children n = Some cs \<Longrightarrow> cs \<noteq> [] \<Longrightarrow>
   applyChildLimits n d = TreeNode (name n) (path n) (size_n n) (type n) (extension n)
      (Some (if CHILD_LIMIT_DEPTH \<le> d \<and> MAX_CHILDREN < length cs
             then limit_children (path n) (map (\<lambda>c. applyChildLimits c (d + 1)) cs)
             else map (\<lambda>c. applyChildLimits c (d + 1)) cs)) (truncated n)"
  by (cases n) (simp add: Let_def)

lemma size_applyChildLimits [simp]: "size_n (applyChildLimits n d) = size_n n"
  by (cases n) (simp add: Let_def split: option.splits)

lemma path_applyChildLimits [simp]: "path (applyChildLimits n d) = path n"
  by (cases n) (simp add: Let_def split: option.splits)

lemma path_recalcSizes [simp]: "path (recalcSizes n) = path n"
  by (cases n) (simp add: Let_def split: option.splits)

lemma limit_children_eq:
  "limit_children p cs = take MAX_CHILDREN cs @
     (if 0 < js_sum (map size_n (drop MAX_CHILDREN cs))
      then [other_node p (length cs - MAX_CHILDREN) (js_sum (map size_n (drop MAX_CHILDREN cs)))]
      else [])"
  by (simp add: limit_children_def Let_def sum_sizes_eq)

lemma limit_children_nonempty: "cs \<noteq> [] \<Longrightarrow> limit_children p cs \<noteq> []"
  by (simp add: limit_children_eq MAX_CHILDREN_def)

lemma recalcSizes_other_node [simp]: "recalcSizes (other_node p k s) = other_node p k s"
  by (simp add: other_node_def)

lemma snapshot_from_children:
  assumes "children n = Some cs" and "cs \<noteq> []"
  shows "children (snapshot_from d n) =
     Some (sort_desc
       (let ranked = sort_key (\<lambda>c. - size_n (recalcSizes c)) cs;
            dropped = js_sum (map (\<lambda>c. size_n (recalcSizes c)) (drop MAX_CHILDREN ranked))
        in if CHILD_LIMIT_DEPTH \<le> d \<and> MAX_CHILDREN < length cs
           then map (snapshot_from (d + 1)) (take MAX_CHILDREN ranked) @
                (if 0 < dropped then [other_node (path n) (length cs - MAX_CHILDREN) dropped] else [])
           else map (snapshot_from (d + 1)) ranked))"
proof -
  define ranked where "ranked = sort_key (\<lambda>c. - size_n (recalcSizes c)) cs"
  define r1 where "r1 = sort_desc (map recalcSizes cs)"
  have r1: "r1 = map recalcSizes ranked"
    by (simp add: r1_def ranked_def sort_desc_map)
  have len: "length ranked = length cs" by (simp add: ranked_def)
  define n1 where "n1 = recalcSizes n"
  have n1: "children n1 = Some r1" "path n1 = path n" "r1 \<noteq> []"
    using assms by (simp_all add: n1_def r1_def recalcSizes_children)
  define c1 where "c1 = map (\<lambda>c. applyChildLimits c (d + 1)) r1"
  define n2 where "n2 = applyChildLimits n1 d"
  have n2: "children n2 = Some (if CHILD_LIMIT_DEPTH \<le> d \<and> MAX_CHILDREN < length cs
             then limit_children (path n) c1 else c1)"
    using n1 len by (simp add: n2_def c1_def applyChildLimits_children r1)
  have c1_ne: "c1 \<noteq> []" using n1 by (simp add: c1_def)
  have snap: "map recalcSizes c1 = map (snapshot_from (d + 1)) ranked"
    by (simp add: c1_def r1 snapshot_from_def)
  have dropped: "map size_n (drop MAX_CHILDREN c1) = map (\<lambda>c. size_n (recalcSizes c)) (drop MAX_CHILDREN ranked)"
    by (simp add: c1_def r1 drop_map)
  show ?thesis
  proof (cases "CHILD_LIMIT_DEPTH \<le> d \<and> MAX_CHILDREN < length cs")
    case True
    then have ch2: "children n2 = Some (limit_children (path n) c1)" using n2 by simp
    have "limit_children (path n) c1 \<noteq> []" using c1_ne by (rule limit_children_nonempty)
    then have "children (recalcSizes n2) = Some (sort_desc (map recalcSizes (limit_children (path n) c1)))"
      using ch2 by (simp add: recalcSizes_children)
    moreover have "map recalcSizes (take MAX_CHILDREN c1) = map (snapshot_from (d + 1)) (take MAX_CHILDREN ranked)"
      using snap by (simp add: take_map[symmetric])
    moreover have "length c1 = length cs" by (simp add: c1_def r1 len)
    ultimately show ?thesis
      using True dropped
      by (simp add: snapshot_from_def n2_def[symmetric] n1_def[symmetric] limit_children_eq
          ranked_def[symmetric] Let_def)
  next
    case False
    then have ch2: "children n2 = Some c1" using n2 by auto
    then have "children (recalcSizes n2) = Some (sort_desc (map recalcSizes c1))"
      using c1_ne by (simp add: recalcSizes_children)
    then show ?thesis
      using False snap
      by (auto simp add: snapshot_from_def n2_def[symmetric] n1_def[symmetric]
          ranked_def[symmetric] Let_def)
  qed
qed


lemma nodes_at_leaf: "children n = None \<Longrightarrow> nodes_at d n = [(d, n)]"
  by (cases n) simp

lemma nodes_at_children:
  "children n = Some cs \<Longrightarrow>
   set (nodes_at d n) = insert (d, n) (\<Union>c\<in>set cs. set (nodes_at (Suc d) c))"
  by (cases n) auto

lemma nodes_at_self: "(d, n) \<in> set (nodes_at d n)"
  by (cases n) simp

lemma nodes_at_shift: "map snd (nodes_at d t) = map snd (nodes_at d' t)"
proof (induction d t arbitrary: d' rule: nodes_at.induct)
  case (1 d nm p s t e ch tr)
  show ?case
  proof (cases ch)
    case None
    then show ?thesis by simp
  next
    case (Some cs)
    have "map snd (nodes_at (Suc d) c) = map snd (nodes_at (Suc d') c)" if "c \<in> set cs" for c
      using 1 Some that by blast
    then have eq: "map (\<lambda>c. map snd (nodes_at (Suc d) c)) cs = map (\<lambda>c. map snd (nodes_at (Suc d') c)) cs"
      by simp
    show ?thesis using Some by (simp add: map_concat comp_def eq)
  qed
qed

lemma nodes_leaf: "children n = None \<Longrightarrow> set (nodes n) = {n}"
  by (simp add: nodes_def nodes_at_leaf)

lemma nodes_children:
  "children n = Some cs \<Longrightarrow> set (nodes n) = insert n (\<Union>c\<in>set cs. set (nodes c))"
proof -
  assume ch: "children n = Some cs"
  have "set (nodes c) = snd ` set (nodes_at (Suc 0) c)" for c
    using nodes_at_shift[of 0 c "Suc 0"] by (metis nodes_def set_map)
  then show ?thesis
    using nodes_at_children[OF ch, of 0] by (simp add: nodes_def image_UN)
qed

lemma nodes_empty: "children n = Some [] \<Longrightarrow> set (nodes n) = {n}"
  by (simp add: nodes_children)

lemma nodes_child_subset:
  "children n = Some cs \<Longrightarrow> c \<in> set cs \<Longrightarrow> set (nodes c) \<subseteq> set (nodes n)"
  by (auto simp: nodes_children)

lemma nodes_self: "n \<in> set (nodes n)"
  using nodes_at_self[of 0 n] by (force simp: nodes_def)

lemma nodes_at_nodes: "(d', m) \<in> set (nodes_at d t) \<Longrightarrow> m \<in> set (nodes t)"
proof -
  assume "(d', m) \<in> set (nodes_at d t)"
  then have "m \<in> set (map snd (nodes_at d t))" by force
  then show ?thesis using nodes_at_shift[of d t 0] by (simp add: nodes_def)
qed

declare recalcSizes.simps [simp del] applyChildLimits.simps [simp del]

lemma children_recalcSizes:
  "children (recalcSizes n) = map_option (\<lambda>cs. sort_desc (map recalcSizes cs)) (children n)"
  by (cases n) (auto simp: recalcSizes.simps Let_def sort_desc_def split: option.splits)

lemma recalcSizes_sorted:
  "\<forall>m\<in>set (nodes (recalcSizes t)). \<forall>cs. children m = Some cs \<longrightarrow> desc_sorted cs"
proof (induction t rule: recalcSizes.induct)
  case (1 nm p s t e ch tr)
  let ?n = "TreeNode nm p s t e ch tr"
  show ?case
  proof (cases ch)
    case None
    then show ?thesis using 1 by (simp add: nodes_leaf recalcSizes_leaf applyChildLimits_leaf)
  next
    case (Some cs)
    show ?thesis
    proof (cases "cs = []")
      case True
      then show ?thesis using Some
        by (simp add: recalcSizes_empty nodes_children[of _ "[]"] desc_sorted_def)
    next
      case False
      have ch: "children (recalcSizes ?n) = Some (sort_desc (map recalcSizes cs))"
        using Some by (simp add: children_recalcSizes)
      show ?thesis
        unfolding nodes_children[OF ch]
        using 1[OF Some False] ch desc_sorted_sort_desc by auto
    qed
  qed
qed

lemma recalcSizes_sums:
  assumes "\<forall>m\<in>set (nodes t). children m = Some [] \<longrightarrow> size_n m = 0"
  shows "\<forall>m\<in>set (nodes (recalcSizes t)). \<forall>cs. children m = Some cs \<longrightarrow>
           size_n m = js_sum (map size_n cs)"
  using assms
proof (induction t rule: recalcSizes.induct)
  case (1 nm p s t e ch tr)
  let ?n = "TreeNode nm p s t e ch tr"
  show ?case
  proof (cases ch)
    case None
    then show ?thesis using 1 by (simp add: nodes_leaf recalcSizes_leaf applyChildLimits_leaf)
  next
    case (Some cs)
    show ?thesis
    proof (cases "cs = []")
      case True
      then show ?thesis using Some 1(2)
        by (simp add: recalcSizes_empty nodes_empty)
    next
      case False
      have ch: "children (recalcSizes ?n) = Some (sort_desc (map recalcSizes cs))"
        using Some by (simp add: children_recalcSizes)
      have self: "size_n (recalcSizes ?n) = js_sum (map size_n (sort_desc (map recalcSizes cs)))"
        using Some False by (simp add: recalcSizes_children sum_sizes_eq)
      have sub: "\<forall>m\<in>set (nodes (recalcSizes c)). \<forall>cs. children m = Some cs \<longrightarrow>
           size_n m = js_sum (map size_n cs)" if "c \<in> set cs" for c
      proof (rule 1(1)[OF Some False that])
        have "set (nodes c) \<subseteq> set (nodes ?n)"
          using that Some by (intro nodes_child_subset[of _ cs]) simp_all
        then show "\<forall>m\<in>set (nodes c). children m = Some [] \<longrightarrow> size_n m = 0"
          using 1(2) by blast
      qed
      show ?thesis
        unfolding nodes_children[OF ch]
        using sub ch self by auto
    qed
  qed
qed

lemma applyChildLimits_empty_zero:
  assumes "\<forall>m\<in>set (nodes t). children m = Some [] \<longrightarrow> size_n m = 0"
  shows "\<forall>m\<in>set (nodes (applyChildLimits t d)). children m = Some [] \<longrightarrow> size_n m = 0"
  using assms
proof (induction t d rule: applyChildLimits.induct)
  case (1 nm p s t e ch tr depth)
  let ?n = "TreeNode nm p s t e ch tr"
  show ?case
  proof (cases ch)
    case None
    then show ?thesis using 1 by (simp add: nodes_leaf recalcSizes_leaf applyChildLimits_leaf)
  next
    case (Some cs)
    show ?thesis
    proof (cases "cs = []")
      case True
      then show ?thesis using Some 1(2) by (simp add: applyChildLimits_empty)
    next
      case False
      let ?cs' = "map (\<lambda>c. applyChildLimits c (depth + 1)) cs"
      let ?kids = "if CHILD_LIMIT_DEPTH \<le> depth \<and> MAX_CHILDREN < length cs
             then limit_children p ?cs' else ?cs'"
      have ch: "children (applyChildLimits ?n depth) = Some ?kids"
        using Some False by (simp add: applyChildLimits_children)
      have ne: "?kids \<noteq> []"
        using False by (simp add: limit_children_nonempty)
      have sub: "\<forall>m\<in>set (nodes (applyChildLimits c (depth + 1))). children m = Some [] \<longrightarrow> size_n m = 0"
        if "c \<in> set cs" for c
      proof (rule 1(1)[OF Some False that])
        have "set (nodes c) \<subseteq> set (nodes ?n)"
          using that Some by (intro nodes_child_subset[of _ cs]) simp_all
        then show "\<forall>m\<in>set (nodes c). children m = Some [] \<longrightarrow> size_n m = 0"
          using 1(2) by blast
      qed
      have kids: "k \<in> set ?kids \<Longrightarrow> (\<exists>c\<in>set cs. k = applyChildLimits c (depth + 1)) \<or> (\<exists>j v. k = other_node p j v)" for k
        by (auto simp: limit_children_eq dest!: in_set_takeD split: if_splits)
      have other: "set (nodes (other_node p j v)) = {other_node p j v}" for j v
        by (simp add: nodes_leaf other_node_def)
      have "children m = Some [] \<longrightarrow> size_n m = 0" if "m \<in> set (nodes k)" "k \<in> set ?kids" for m k
        using kids[OF that(2)] that(1) sub other by (auto simp: other_node_def)
      then show ?thesis
        unfolding nodes_children[OF ch] using ch ne by auto
    qed
  qed
qed

lemma snapshot_sizes_core:
  assumes "\<forall>m\<in>set (nodes w). children m = Some [] \<longrightarrow> size_n m = 0"
  shows "\<forall>m\<in>set (nodes (snapshot w)). \<forall>cs. children m = Some cs \<longrightarrow>
           size_n m = js_sum (map size_n cs)"
proof -
  have "\<forall>m\<in>set (nodes (recalcSizes w)). children m = Some [] \<longrightarrow> size_n m = 0"
    using recalcSizes_sums[OF assms] by auto
  then have "\<forall>m\<in>set (nodes (applyChildLimits (recalcSizes w) 0)). children m = Some [] \<longrightarrow> size_n m = 0"
    by (rule applyChildLimits_empty_zero)
  then show ?thesis
    unfolding snapshot_def clone_id by (rule recalcSizes_sums)
qed

lemma snapshot_sorted:
  "\<forall>m\<in>set (nodes (snapshot w)). \<forall>cs. children m = Some cs \<longrightarrow> desc_sorted cs"
  unfolding snapshot_def by (rule recalcSizes_sorted)

lemma snapshot_from_leaf: "children n = None \<Longrightarrow> snapshot_from d n = n"
  by (simp add: snapshot_from_def recalcSizes_leaf applyChildLimits_leaf)

lemma snapshot_from_empty: "children n = Some [] \<Longrightarrow> snapshot_from d n = n"
  by (simp add: snapshot_from_def recalcSizes_empty applyChildLimits_empty)

lemma snapshot_from_capped:
  assumes "children n = Some cs" "CHILD_LIMIT_DEPTH \<le> d" "MAX_CHILDREN < length cs"
  shows "children (snapshot_from d n) =
     Some (sort_desc (map (snapshot_from (d + 1)) (take MAX_CHILDREN (ranked cs)) @
       (if 0 < folded_size cs
        then [other_node (path n) (length cs - MAX_CHILDREN) (folded_size cs)] else [])))"
proof -
  have "cs \<noteq> []" using assms(3) by auto
  from snapshot_from_children[OF assms(1) this, of d] assms(2,3) show ?thesis
    by (simp add: Let_def ranked_def folded_size_def folded_sizes_def)
qed

lemma snapshot_from_uncapped:
  assumes "children n = Some cs" "d < CHILD_LIMIT_DEPTH \<or> length cs \<le> MAX_CHILDREN"
  shows "children (snapshot_from d n) = Some (sort_desc (map (snapshot_from (d + 1)) (ranked cs)))"
proof (cases "cs = []")
  case True
  then show ?thesis using assms(1) by (simp add: snapshot_from_empty ranked_def sort_desc_def)
next
  case False
  from snapshot_from_children[OF assms(1) this, of d] assms(2) show ?thesis
    by (auto simp add: Let_def ranked_def)
qed

lemma set_ranked [simp]: "set (ranked cs) = set cs"
  by (simp add: ranked_def)

lemma length_ranked [simp]: "length (ranked cs) = length cs"
  by (simp add: ranked_def)

lemma snapshot_from_kids:
  assumes "children n = Some cs" "children (snapshot_from d n) = Some ks" "k \<in> set ks"
  shows "(\<exists>c\<in>set cs. k = snapshot_from (d + 1) c) \<or> (\<exists>p j v. k = other_node p j v)"
proof (cases "CHILD_LIMIT_DEPTH \<le> d \<and> MAX_CHILDREN < length cs")
  case True
  with snapshot_from_capped[OF assms(1), of d] assms(2,3) show ?thesis
    by (auto dest!: in_set_takeD split: if_splits)
next
  case False
  with snapshot_from_uncapped[OF assms(1), of d] assms(2,3) show ?thesis
    by auto
qed

lemma children_snapshot_from_None:
  "children n = None \<Longrightarrow> children (snapshot_from d n) = None"
  by (simp add: snapshot_from_leaf)

lemma children_snapshot_from_Some:
  "children n = Some cs \<Longrightarrow> \<exists>ks. children (snapshot_from d n) = Some ks"
  using snapshot_from_children[of n cs d] by (cases "cs = []") (simp_all add: snapshot_from_empty)

lemma snapshot_from_nodes:
  "(d', m) \<in> set (nodes_at d (snapshot_from d n)) \<Longrightarrow>
   (\<exists>n'. (d', n') \<in> set (nodes_at d n) \<and> m = snapshot_from d' n') \<or> (\<exists>p j v. m = other_node p j v)"
proof (induction n arbitrary: d d' m rule: recalcSizes.induct)
  case (1 nm p s t e ch tr)
  let ?n = "TreeNode nm p s t e ch tr"
  show ?case
  proof (cases ch)
    case None
    then show ?thesis using 1(2) by (auto simp: snapshot_from_leaf)
  next
    case (Some cs)
    show ?thesis
    proof (cases "cs = []")
      case True
      then show ?thesis using 1(2) Some by (auto simp: snapshot_from_empty)
    next
      case False
      have ch: "children ?n = Some cs" using Some by simp
      obtain ks where ks: "children (snapshot_from d ?n) = Some ks"
        using children_snapshot_from_Some[OF ch] by blast
      from 1(2) have "(d', m) = (d, snapshot_from d ?n)
          \<or> (\<exists>k\<in>set ks. (d', m) \<in> set (nodes_at (Suc d) k))"
        unfolding nodes_at_children[OF ks] by auto
      then show ?thesis
      proof
        assume "(d', m) = (d, snapshot_from d ?n)"
        then show ?thesis using nodes_at_self[of d ?n] by blast
      next
        assume "\<exists>k\<in>set ks. (d', m) \<in> set (nodes_at (Suc d) k)"
        then obtain k where k: "k \<in> set ks" "(d', m) \<in> set (nodes_at (Suc d) k)" by blast
        from snapshot_from_kids[OF ch ks k(1)] show ?thesis
        proof
          assume "\<exists>c\<in>set cs. k = snapshot_from (d + 1) c"
          then obtain c where c: "c \<in> set cs" "k = snapshot_from (Suc d) c" by auto
          from 1(1)[OF Some False c(1), of d' m "Suc d"] k(2) c(2)
          have "(\<exists>n'. (d', n') \<in> set (nodes_at (Suc d) c) \<and> m = snapshot_from d' n')
              \<or> (\<exists>p j v. m = other_node p j v)" by simp
          moreover have "set (nodes_at (Suc d) c) \<subseteq> set (nodes_at d ?n)"
            using c(1) unfolding nodes_at_children[OF ch] by auto
          ultimately show ?thesis by blast
        next
          assume "\<exists>p j v. k = other_node p j v"
          then obtain p j v where "k = other_node p j v" by blast
          then have "nodes_at (Suc d) k = [(Suc d, k)]"
            by (simp add: nodes_at_leaf other_node_def)
          then have "m = other_node p j v" using k(2) \<open>k = other_node p j v\<close> by simp
          then show ?thesis by blast
        qed
      qed
    qed
  qed
qed

lemma snapshot_from_bound:
  assumes "CHILD_LIMIT_DEPTH \<le> d" "children (snapshot_from d n) = Some ks"
  shows "length ks \<le> MAX_CHILDREN + 1"
proof (cases "children n")
  case None
  then show ?thesis using assms(2) by (simp add: snapshot_from_leaf)
next
  case (Some cs)
  show ?thesis
  proof (cases "MAX_CHILDREN < length cs")
    case True
    from snapshot_from_capped[OF Some assms(1) True] assms(2) show ?thesis
      by (auto split: if_splits)
  next
    case False
    with snapshot_from_uncapped[OF Some, of d] assms(2) show ?thesis by auto
  qed
qed

lemma folded_size_exact:
  assumes "\<forall>c\<in>set cs. 0 \<le> size_n (recalcSizes c)" "sum_list (folded_sizes cs) \<le> 2 ^ 53"
  shows "folded_size cs = sum_list (folded_sizes cs)"
proof -
  have "set (drop MAX_CHILDREN (ranked cs)) \<subseteq> set cs"
    using set_drop_subset[of MAX_CHILDREN "ranked cs"] by simp
  then have "\<forall>x\<in>set (folded_sizes cs). 0 \<le> x"
    using assms(1) by (auto simp: folded_sizes_def)
  then show ?thesis
    unfolding folded_size_def using assms(2) by (rule js_sum_exact)
qed

text \<open>
  Claim C2, as the code has it. Every node of a snapshot is the snapshot (started at its
  depth) of a node of the working tree at that depth, or an aggregate node, and from depth
  2 on it has at most 31 children. The snapshot of a node with more than 30 children at
  depth \<open>\<ge> 2\<close> has the snapshots of its 30 largest children and at most one aggregate
  node: none when the total of the folded children is not positive, else the file node
  \<open>(N smaller items)\<close> at \<open>path/__other__\<close> whose size is the total of the recomputed sizes
  of the folded children, added from left to right as JavaScript adds numbers. That total
  is the exact sum when the sizes are not negative and the exact sum is at most \<open>2^53\<close>.
  At depth \<open>< 2\<close> the snapshot has the snapshots of all the children.
\<close>

theorem child_cap:
  "(\<forall>(d, m)\<in>set (nodes_at 0 (snapshot w)).
       ((\<exists>n. (d, n) \<in> set (nodes_at 0 w) \<and> m = snapshot_from d n) \<or> (\<exists>p j v. m = other_node p j v))
       \<and> (CHILD_LIMIT_DEPTH \<le> d \<longrightarrow> (\<forall>ks. children m = Some ks \<longrightarrow> length ks \<le> MAX_CHILDREN + 1)))
   \<and> (children n = Some cs \<and> CHILD_LIMIT_DEPTH \<le> d \<and> MAX_CHILDREN < length cs \<longrightarrow>
        (\<exists>aggs.
           children (snapshot_from d n) =
             Some (sort_desc (map (snapshot_from (d + 1)) (take MAX_CHILDREN (ranked cs)) @ aggs))
           \<and> length aggs \<le> 1
           \<and> (aggs = [] \<longleftrightarrow> js_sum (folded_sizes cs) \<le> 0)
           \<and> (\<forall>a\<in>set aggs.
                 size_n a = js_sum (folded_sizes cs)
                 \<and> name a = ''('' @ show_nat (length cs - MAX_CHILDREN) @ '' smaller items)''
                 \<and> path a = path n @ ''/__other__'' \<and> type a = File \<and> children a = None
                 \<and> extension a = None \<and> truncated a = None
                 \<and> ((\<forall>c\<in>set cs. 0 \<le> size_n (recalcSizes c))
                        \<and> sum_list (folded_sizes cs) \<le> 2 ^ 53 \<longrightarrow>
                      size_n a = sum_list (folded_sizes cs)))))
   \<and> (children n = Some cs \<and> d < CHILD_LIMIT_DEPTH \<longrightarrow>
        children (snapshot_from d n) = Some (sort_desc (map (snapshot_from (d + 1)) (ranked cs)))
        \<and> length (sort_desc (map (snapshot_from (d + 1)) (ranked cs))) = length cs)"
proof (intro conjI ballI impI; (elim conjE)?)
  fix x assume x: "x \<in> set (nodes_at 0 (snapshot w))"
  obtain d m where dm: "x = (d, m)" by (cases x)
  from x dm have "(d, m) \<in> set (nodes_at 0 (snapshot_from 0 w))" by (simp add: snapshot_eq)
  from snapshot_from_nodes[OF this]
  have orig: "(\<exists>n. (d, n) \<in> set (nodes_at 0 w) \<and> m = snapshot_from d n) \<or> (\<exists>p j v. m = other_node p j v)" .
  have "length ks \<le> MAX_CHILDREN + 1" if "CHILD_LIMIT_DEPTH \<le> d" "children m = Some ks" for ks
    using orig
  proof
    assume "\<exists>n. (d, n) \<in> set (nodes_at 0 w) \<and> m = snapshot_from d n"
    then show ?thesis using that snapshot_from_bound by blast
  next
    assume "\<exists>p j v. m = other_node p j v"
    then show ?thesis using that by (auto simp: other_node_def)
  qed
  with orig show "case x of (d, m) \<Rightarrow>
       ((\<exists>n. (d, n) \<in> set (nodes_at 0 w) \<and> m = snapshot_from d n) \<or> (\<exists>p j v. m = other_node p j v))
       \<and> (CHILD_LIMIT_DEPTH \<le> d \<longrightarrow> (\<forall>ks. children m = Some ks \<longrightarrow> length ks \<le> MAX_CHILDREN + 1))"
    by (simp add: dm)
next
  assume a: "children n = Some cs" "CHILD_LIMIT_DEPTH \<le> d" "MAX_CHILDREN < length cs"
  let ?agg = "other_node (path n) (length cs - MAX_CHILDREN) (folded_size cs)"
  let ?aggs = "if 0 < folded_size cs then [?agg] else []"
  have ch: "children (snapshot_from d n) =
      Some (sort_desc (map (snapshot_from (d + 1)) (take MAX_CHILDREN (ranked cs)) @ ?aggs))"
    using a by (rule snapshot_from_capped)
  have sz: "size_n ?agg = js_sum (folded_sizes cs)"
    by (simp add: other_node_def folded_size_def)
  have ex: "size_n ?agg = sum_list (folded_sizes cs)"
    if "(\<forall>c\<in>set cs. 0 \<le> size_n (recalcSizes c)) \<and> sum_list (folded_sizes cs) \<le> 2 ^ 53"
    using that folded_size_exact[of cs] by (simp add: other_node_def)
  have sel: "name ?agg = ''('' @ show_nat (length cs - MAX_CHILDREN) @ '' smaller items)''"
    "path ?agg = path n @ ''/__other__''" "type ?agg = File" "children ?agg = None"
    "extension ?agg = None" "truncated ?agg = None"
    by (simp_all add: other_node_def)
  have "length ?aggs \<le> 1" by simp
  moreover have "?aggs = [] \<longleftrightarrow> js_sum (folded_sizes cs) \<le> 0"
    by (simp add: folded_size_def)
  moreover have "\<forall>a\<in>set ?aggs.
      size_n a = js_sum (folded_sizes cs)
      \<and> name a = ''('' @ show_nat (length cs - MAX_CHILDREN) @ '' smaller items)''
      \<and> path a = path n @ ''/__other__'' \<and> type a = File \<and> children a = None
      \<and> extension a = None \<and> truncated a = None
      \<and> ((\<forall>c\<in>set cs. 0 \<le> size_n (recalcSizes c)) \<and> sum_list (folded_sizes cs) \<le> 2 ^ 53 \<longrightarrow>
           size_n a = sum_list (folded_sizes cs))"
    using sz ex sel by simp
  ultimately show "\<exists>aggs.
      children (snapshot_from d n) =
        Some (sort_desc (map (snapshot_from (d + 1)) (take MAX_CHILDREN (ranked cs)) @ aggs))
      \<and> length aggs \<le> 1
      \<and> (aggs = [] \<longleftrightarrow> js_sum (folded_sizes cs) \<le> 0)
      \<and> (\<forall>a\<in>set aggs.
            size_n a = js_sum (folded_sizes cs)
            \<and> name a = ''('' @ show_nat (length cs - MAX_CHILDREN) @ '' smaller items)''
            \<and> path a = path n @ ''/__other__'' \<and> type a = File \<and> children a = None
            \<and> extension a = None \<and> truncated a = None
            \<and> ((\<forall>c\<in>set cs. 0 \<le> size_n (recalcSizes c))
                   \<and> sum_list (folded_sizes cs) \<le> 2 ^ 53 \<longrightarrow>
                 size_n a = sum_list (folded_sizes cs)))"
    using ch by blast
next
  assume "children n = Some cs" "d < CHILD_LIMIT_DEPTH"
  then show "children (snapshot_from d n) = Some (sort_desc (map (snapshot_from (d + 1)) (ranked cs)))"
    by (simp add: snapshot_from_uncapped)
next
  show "length (sort_desc (map (snapshot_from (d + 1)) (ranked cs))) = length cs" by simp
qed

lemma sized_file_sel [simp]:
  "size_n (sized_file s i) = s" "children (sized_file s i) = None"
  "recalcSizes (sized_file s i) = sized_file s i" "snapshot_from d (sized_file s i) = sized_file s i"
  by (simp_all add: sized_file_def recalcSizes_leaf snapshot_from_leaf)

lemma sort_key_const: "(\<forall>x\<in>set xs. f x = k) \<Longrightarrow> sort_key f xs = xs"
proof (induction xs)
  case Nil
  then show ?case by simp
next
  case (Cons a xs)
  then show ?case by (cases xs) auto
qed

lemma insort_key_last:
  fixes f :: "'a \<Rightarrow> int"
  shows "\<forall>y\<in>set ys. f y < f x \<Longrightarrow> insort_key f x ys = ys @ [x]"
  by (induction ys) auto

lemma upt_split_32: "[2..<32] = [2..<31] @ [31]" "[0..<31] = [0..<30] @ [30]"
  by code_simp+

lemma js_add_tie: "js_add 9007199254740992 1 = 9007199254740992"
proof -
  have "ulp 9007199254740993 = 2"
    by (subst ulp.simps) (simp add: ulp_small)
  then show ?thesis by (simp add: js_add_def to_double_def Let_def)
qed

lemma cap_dir_ranked:
  "ranked (sized_file 1 0 # sized_file 2 1 # map (sized_file 5) [2..<32]) =
     map (sized_file 5) [2..<32] @ [sized_file 2 1, sized_file 1 0]"
proof -
  let ?g = "\<lambda>c. - size_n (recalcSizes c)"
  let ?fives = "map (sized_file 5) [2..<32]"
  have "sort_key ?g ?fives = ?fives"
    by (rule sort_key_const[where k = "-5"]) auto
  moreover have "insort_key ?g (sized_file 2 1) ?fives = ?fives @ [sized_file 2 1]"
    by (rule insort_key_last) auto
  moreover have "insort_key ?g (sized_file 1 0) (?fives @ [sized_file 2 1])
      = (?fives @ [sized_file 2 1]) @ [sized_file 1 0]"
    by (rule insort_key_last) auto
  ultimately show ?thesis by (simp add: ranked_def del: upt_rec_numeral)
qed

lemma cap_dir_folded:
  "take MAX_CHILDREN (ranked (sized_file 1 0 # sized_file 2 1 # map (sized_file 5) [2..<32]))
     = map (sized_file 5) [2..<32]"
  "folded_sizes (sized_file 1 0 # sized_file 2 1 # map (sized_file 5) [2..<32]) = [2, 1]"
  unfolding folded_sizes_def cap_dir_ranked
  by (simp_all add: MAX_CHILDREN_def del: upt_rec_numeral)

lemma sort_key_sorted_id: "sorted (map f xs) \<Longrightarrow> sort_key f xs = xs"
proof (induction xs)
  case Nil
  then show ?case by simp
next
  case (Cons x xs)
  then have "sort_key f xs = xs" and "\<forall>y\<in>set xs. f x \<le> f y" by auto
  then show ?case using insort_is_Cons[of xs f x] by simp
qed

lemma cap_dir_sorted:
  "sort_desc (map (sized_file 5) [2..<32] @ [other_node ''/r/a/b'' 2 3])
     = map (sized_file 5) [2..<32] @ [other_node ''/r/a/b'' 2 3]"
  unfolding sort_desc_def
  by (rule sort_key_sorted_id)
    (simp add: sorted_append sorted_map sorted_wrt_map other_node_def del: upt_rec_numeral)

text \<open>
  In the snapshot of \<open>cap_tree\<close>, the directory at depth 2 keeps its 30 files of 5 bytes
  and gets an aggregate node for the files of 2 bytes and of 1 byte, of 3 bytes.
\<close>

theorem child_cap_witness:
  "children cap_dir = Some (sized_file 1 0 # sized_file 2 1 # map (sized_file 5) [2..<32])
   \<and> length (sized_file 1 0 # sized_file 2 1 # map (sized_file 5) [2..<32]) = 32
   \<and> folded_sizes (sized_file 1 0 # sized_file 2 1 # map (sized_file 5) [2..<32]) = [2, 1]
   \<and> children (snapshot_from 2 cap_dir) =
        Some (map (sized_file 5) [2..<32] @ [other_node ''/r/a/b'' 2 3])
   \<and> length (map (sized_file 5) [2..<32] @ [other_node ''/r/a/b'' 2 3]) = 31
   \<and> length (map (sized_file 5) [2..<32] @ [other_node ''/r/a/b'' 2 3]) \<le> MAX_CHILDREN + 1
   \<and> size_n (other_node ''/r/a/b'' 2 3) = js_sum [2, 1]
   \<and> size_n (other_node ''/r/a/b'' 2 3) = 2 + 1
   \<and> children (snapshot_from 0 cap_tree) = Some [snapshot_from 1 cap_mid]
   \<and> children (snapshot_from 1 cap_mid) = Some [snapshot_from 2 cap_dir]
   \<and> (2, snapshot_from 2 cap_dir) \<in> set (nodes_at 0 (snapshot cap_tree))"
proof -
  let ?cs = "sized_file 1 0 # sized_file 2 1 # map (sized_file 5) [2..<32]"
  have ch: "children cap_dir = Some ?cs" by (simp add: cap_dir_def)
  have len: "length ?cs = 32" by simp
  have tot: "js_sum (folded_sizes ?cs) = 3"
    unfolding cap_dir_folded by (simp add: js_sum_def js_add_exact)
  have ex: "sum_list (folded_sizes ?cs) = 3" unfolding cap_dir_folded by simp
  from child_cap[of cap_tree cap_dir ?cs 2] ch len
  obtain aggs where ag: "children (snapshot_from 2 cap_dir) =
        Some (sort_desc (map (snapshot_from (2 + 1)) (take MAX_CHILDREN (ranked ?cs)) @ aggs))"
    "length aggs \<le> 1" "aggs = [] \<longleftrightarrow> js_sum (folded_sizes ?cs) \<le> 0"
    "\<forall>a\<in>set aggs.
       size_n a = js_sum (folded_sizes ?cs)
       \<and> name a = ''('' @ show_nat (length ?cs - MAX_CHILDREN) @ '' smaller items)''
       \<and> path a = path cap_dir @ ''/__other__'' \<and> type a = File \<and> children a = None
       \<and> extension a = None \<and> truncated a = None
       \<and> ((\<forall>c\<in>set ?cs. 0 \<le> size_n (recalcSizes c)) \<and> sum_list (folded_sizes ?cs) \<le> 2 ^ 53 \<longrightarrow>
            size_n a = sum_list (folded_sizes ?cs))"
    unfolding CHILD_LIMIT_DEPTH_def MAX_CHILDREN_def by auto
  from ag(2,3) tot obtain a where a: "aggs = [a]"
    by (cases aggs) auto
  have len2: "length ?cs - MAX_CHILDREN = 2"
    by (simp add: MAX_CHILDREN_def)
  have "a \<in> set aggs" using a by simp
  note props = ag(4)[unfolded len2 tot, rule_format, OF this]
  have nn: "\<forall>c\<in>set ?cs. 0 \<le> size_n (recalcSizes c)" by auto
  from props nn ex have exact: "size_n a = 2 + 1"
    unfolding cap_dir_folded by simp
  have eq: "a = other_node ''/r/a/b'' 2 3"
    by (intro TreeNode.expand) (use props in \<open>simp add: other_node_def cap_dir_def\<close>)
  have b: "children (snapshot_from 2 cap_dir) =
        Some (map (sized_file 5) [2..<32] @ [other_node ''/r/a/b'' 2 3])"
    using eq ag(1) a unfolding cap_dir_folded
    by (simp add: cap_dir_sorted comp_def del: upt_rec_numeral)
  have r: "children (snapshot_from 0 cap_tree) = Some [snapshot_from 1 cap_mid]"
    using child_cap[of cap_tree cap_tree "[cap_mid]" 0]
    by (simp add: cap_tree_def CHILD_LIMIT_DEPTH_def ranked_def sort_desc_def)
  have m: "children (snapshot_from 1 cap_mid) = Some [snapshot_from 2 cap_dir]"
    using child_cap[of cap_tree cap_mid "[cap_dir]" 1]
    by (simp add: cap_mid_def CHILD_LIMIT_DEPTH_def ranked_def sort_desc_def
        numeral_2_eq_2[symmetric])
  have "(2, snapshot_from 2 cap_dir) \<in> set (nodes_at (Suc (Suc 0)) (snapshot_from 2 cap_dir))"
    using nodes_at_self[of 2 "snapshot_from 2 cap_dir"] by (simp add: numeral_2_eq_2)
  then have "(2, snapshot_from 2 cap_dir) \<in> set (nodes_at (Suc 0) (snapshot_from 1 cap_mid))"
    unfolding nodes_at_children[OF m] by simp
  then have "(2, snapshot_from 2 cap_dir) \<in> set (nodes_at 0 (snapshot_from 0 cap_tree))"
    unfolding nodes_at_children[OF r] by simp
  then have mem: "(2, snapshot_from 2 cap_dir) \<in> set (nodes_at 0 (snapshot cap_tree))"
    by (simp add: snapshot_eq)
  have bound: "length (map (sized_file 5) [2..<32] @ [other_node ''/r/a/b'' 2 3])
      \<le> MAX_CHILDREN + 1"
    using child_cap[of cap_tree] mem b by (fastforce simp: CHILD_LIMIT_DEPTH_def)
  have sz: "size_n (other_node ''/r/a/b'' 2 3) = js_sum [2, 1]"
    "size_n (other_node ''/r/a/b'' 2 3) = 2 + 1"
    using props exact tot unfolding eq cap_dir_folded by simp_all
  have len31: "length (map (sized_file 5) [2..<32] @ [other_node ''/r/a/b'' 2 3]) = 31"
    by simp
  show ?thesis
    using ch len cap_dir_folded(2) b len31 bound sz r m mem by blast
qed



lemma scanDirectory_truncated:
  "maxDepth \<le> depth \<Longrightarrow>
   scanDirectory fs dirPath maxDepth depth =
     (TreeNode (dir_name dirPath) dirPath (snd (fastDirSize fs dirPath False False))
        Directory None None (Some True),
      [fst (fastDirSize fs dirPath False False)])"
  by (subst scanDirectory.simps) (simp add: Let_def dir_name_def)

lemma scanDirectory_unreadable:
  "depth < maxDepth \<Longrightarrow> readdir fs dirPath = None \<Longrightarrow>
   scanDirectory fs dirPath maxDepth depth =
     (TreeNode (dir_name dirPath) dirPath 0 Directory None None None,
      [[AcquireSlot, Syscall Readdir dirPath, ReleaseSlot]])"
  by (subst scanDirectory.simps) (simp add: Let_def dir_name_def withSlot_def readdir_call_def)

lemma scanDirectory_listed:
  assumes "depth < maxDepth" "readdir fs dirPath = Some entries"
  shows "scanDirectory fs dirPath maxDepth depth =
     (TreeNode (dir_name dirPath) dirPath
        (sum_sizes (scan_children fs dirPath maxDepth depth entries)) Directory None
        (Some (scan_children fs dirPath maxDepth depth entries)) None,
      [AcquireSlot, Syscall Readdir dirPath, ReleaseSlot] #
        concat (map (\<lambda>e. snd (scan_entry fs dirPath maxDepth depth e)) entries))"
proof -
  have cb: "(\<lambda>entry.
              if isSymbolicLink entry then (None, [])
              else (let fullPath = join dirPath (d_name entry)
                    in if isDirectory entry then
                         (let r = scanDirectory fs fullPath maxDepth (depth + 1)
                          in (Some (fst r), snd r))
                       else if isFile entry then
                         (case withSlot (stat_call fs fullPath) of
                            (evs', Some sz) \<Rightarrow>
                              (Some (file_node (d_name entry) fullPath sz), [evs'])
                          | (evs', None) \<Rightarrow> (None, [evs']))
                       else (None, []))) = scan_entry fs dirPath maxDepth depth"
    by (rule ext) (simp add: scan_entry_def Let_def withSlot_def stat_call_def split: option.splits)
  show ?thesis
    apply (subst scanDirectory.simps)
    unfolding cb
    using assms
    by (simp add: Let_def dir_name_def withSlot_def readdir_call_def scan_children_def comp_def)
qed


lemma fs_deep_simps:
  "readdir fs_deep ''/r'' = Some [\<lparr>d_name = ''a'', d_type = DDirectory\<rparr>]"
  "readdir fs_deep ''/r/a'' = Some [\<lparr>d_name = ''b'', d_type = DDirectory\<rparr>]"
  "readdir fs_deep ''/r/a/b'' = Some (map (\<lambda>i. \<lparr>d_name = show_nat i, d_type = DFile\<rparr>) [0..<32])"
  "stat fs_deep q = Some 1"
  by (simp_all add: fs_deep_def)

lemma scan_deep_b:
  "children (fst (scanDirectory fs_deep ''/r/a/b'' 8 2)) =
     Some (map (\<lambda>i. file_node (show_nat i) (join ''/r/a/b'' (show_nat i)) 1) [0..<30] @
           [other_node ''/r/a/b'' 2 2])"
proof -
  let ?f = "\<lambda>i. file_node (show_nat i) (join ''/r/a/b'' (show_nat i)) 1"
  have mf: "List.map_filter fst (map (scan_entry fs_deep ''/r/a/b'' 8 2)
              (map (\<lambda>i. \<lparr>d_name = show_nat i, d_type = DFile\<rparr>) xs)) = map ?f xs" for xs
    by (induction xs)
       (simp_all add: List.map_filter_simps scan_entry_def isSymbolicLink_def isDirectory_def
          isFile_def fs_deep_simps)
  have srt: "sort_desc (map ?f xs) = map ?f xs" for xs :: "nat list"
  proof (induction xs)
    case Nil
    then show ?case by (simp add: sort_desc_def)
  next
    case (Cons a xs)
    then show ?case by (cases xs) (simp_all add: sort_desc_def file_node_def)
  qed
  have "[0..<32] = [0..<30] @ [30, 31]" by code_simp
  then have tk: "take 30 (map ?f [0..<32]) = map ?f [0..<30]"
    and dr: "drop 30 (map ?f [0..<32]) = map ?f [30, 31]"
    by simp_all
  have "scan_children fs_deep ''/r/a/b'' 8 2 (map (\<lambda>i. \<lparr>d_name = show_nat i, d_type = DFile\<rparr>) [0..<32])
      = map ?f [0..<30] @ [other_node ''/r/a/b'' 2 2]"
    unfolding scan_children_def mf srt Let_def limit_children_eq MAX_CHILDREN_def tk dr
    by (simp add: CHILD_LIMIT_DEPTH_def file_node_def js_sum_def js_add_exact
        del: upt_rec_numeral map_map)
  then show ?thesis
    by (simp add: scanDirectory_listed[OF _ fs_deep_simps(3)])
qed

lemma scan_deep_a:
  "children (fst (scanDirectory fs_deep ''/r/a'' 8 1)) =
     Some [fst (scanDirectory fs_deep ''/r/a/b'' 8 2)]"
proof -
  have "join ''/r/a'' ''b'' = ''/r/a/b''" by (simp add: join_def)
  then show ?thesis
    by (simp add: scanDirectory_listed[OF _ fs_deep_simps(2)] scan_children_def scan_entry_def
        numeral_2_eq_2[symmetric]
        List.map_filter_simps isSymbolicLink_def isDirectory_def sort_desc_def
        CHILD_LIMIT_DEPTH_def)
qed

lemma scan_deep_r:
  "children (fst (scanDirectory fs_deep ''/r'' 8 0)) =
     Some [fst (scanDirectory fs_deep ''/r/a'' 8 1)]"
proof -
  have "join ''/r'' ''a'' = ''/r/a''" by (simp add: join_def)
  then show ?thesis
    by (simp add: scanDirectory_listed[OF _ fs_deep_simps(1)] scan_children_def scan_entry_def
        List.map_filter_simps isSymbolicLink_def isDirectory_def sort_desc_def
        CHILD_LIMIT_DEPTH_def)
qed

text \<open>
  Claim C3, at the one-shot walk: every tree \<open>scanDirectory\<close> returns has the children
  of every node sorted by size, largest first. \<open>snapshot_sorted\<close> above proves this of
  every snapshot. \<open>scanDirectory\<close> sorts and then appends the aggregate node, so that
  in the tree of \<open>fs_deep\<close> the directory \<open>/r/a/b\<close> lists thirty files of one byte
  followed by an aggregate of two bytes: its children are not sorted.
\<close>

theorem scanDirectory_unsorted:
  "\<exists>m\<in>set (nodes (fst (scanDirectory fs_deep ''/r'' 8 0))).
     \<exists>cs. children m = Some cs \<and> \<not> desc_sorted cs"
proof -
  let ?b = "fst (scanDirectory fs_deep ''/r/a/b'' 8 2)"
  let ?a = "fst (scanDirectory fs_deep ''/r/a'' 8 1)"
  let ?r = "fst (scanDirectory fs_deep ''/r'' 8 0)"
  let ?cs = "map (\<lambda>i. file_node (show_nat i) (join ''/r/a/b'' (show_nat i)) 1) [0..<30] @
           [other_node ''/r/a/b'' 2 2]"
  have "?b \<in> set (nodes ?a)"
    using nodes_child_subset[OF scan_deep_a, of ?b] nodes_self[of ?b] by auto
  moreover have "set (nodes ?a) \<subseteq> set (nodes ?r)"
    using nodes_child_subset[OF scan_deep_r, of ?a] by simp
  ultimately have mem: "?b \<in> set (nodes ?r)" by blast
  have "\<not> desc_sorted ?cs"
    by (auto simp add: desc_sorted_def sorted_wrt_append other_node_def file_node_def
        intro!: exI[of _ 0])
  then show ?thesis using mem scan_deep_b by blast
qed

lemma pending_begin_child: "pending (snd (begin_child maxDepth depth p e)) = 1"
  by (simp add: begin_child_def fill_begin_def)

lemma sum_list_const_one: "(\<forall>x\<in>set xs. f x = (1::nat)) \<Longrightarrow> sum_list (map f xs) = length xs"
  by (induction xs) auto

lemma sum_list_all_zero: "(\<forall>x\<in>set xs. f x = (0::nat)) \<Longrightarrow> sum_list (map f xs) = 0"
  by (induction xs) auto

lemma sum_list_map_update:
  "j < length xs \<Longrightarrow>
   sum_list (map f (xs[j := y])) + f (xs ! j) = sum_list (map f xs) + (f y :: nat)"
proof (induction xs arbitrary: j)
  case Nil
  then show ?case by simp
next
  case (Cons a xs)
  then show ?case by (cases j) (auto simp: algebra_simps)
qed

lemma fill_step_counts:
  assumes "fill_step fs maxDepth depth (g, n, f) (g', n', f')"
  shows "aborted g' = aborted g
       \<and> dirsFound (progress g) \<le> dirsFound (progress g')
       \<and> dirsCompleted (progress g) \<le> dirsCompleted (progress g')
       \<and> dirsCompleted (progress g') + pending f' + dirsFound (progress g)
           \<le> dirsFound (progress g') + dirsCompleted (progress g) + pending f
       \<and> (\<not> aborted g \<longrightarrow>
            dirsCompleted (progress g') + pending f' + dirsFound (progress g)
            = dirsFound (progress g') + dirsCompleted (progress g) + pending f)"
  using assms
proof (induction depth "(g, n, f)" "(g', n', f')" arbitrary: g n f g' n' f' rule: fill_step.induct)
  case (du_settled depth g node)
  then show ?case by (simp add: markDirty_def inc_completed_def)
next
  case (readdir_failed node depth g)
  then show ?case by (simp add: inc_completed_def)
next
  case (readdir_aborted node entries g depth)
  then show ?case by simp
next
  case (readdir_ok node entries g subdirs g' depth)
  have "sum_list (map pending (map (\<lambda>e. snd (begin_child maxDepth depth (path node) e)) subdirs))
        = length subdirs"
    by (simp add: comp_def pending_begin_child sum_list_triv)
  then show ?case using readdir_ok
    by (simp add: markDirty_def add_found_def)
next
  case (stat_ok entry stats node sz cs depth g fills)
  then show ?case by (simp add: markDirty_def)
next
  case (stat_failed entry stats node depth g fills)
  then show ?case by simp
next
  case (child_step j fills node cs depth g g' c' f' stats)
  from child_step(5) have ih: "aborted g' = aborted g"
      "dirsFound (progress g) \<le> dirsFound (progress g')"
      "dirsCompleted (progress g) \<le> dirsCompleted (progress g')"
      "dirsCompleted (progress g') + pending f' + dirsFound (progress g)
           \<le> dirsFound (progress g') + dirsCompleted (progress g) + pending (fills ! j)"
      "\<not> aborted g \<Longrightarrow>
            dirsCompleted (progress g') + pending f' + dirsFound (progress g)
            = dirsFound (progress g') + dirsCompleted (progress g) + pending (fills ! j)"
    by simp_all
  have upd: "sum_list (map pending (fills[j := f'])) + pending (fills ! j)
        = sum_list (map pending fills) + pending f'"
    using child_step(1) by (rule sum_list_map_update)
  show ?case using ih upd by auto
next
  case (all_settled fills stats depth g node)
  then have "sum_list (map pending fills) = 0"
    by (intro sum_list_all_zero) auto
  then show ?case by (simp add: markDirty_def inc_completed_def)
qed

lemma counters_ok_init: "counters_ok (scan_init dirPath maxDepth ab)"
  by (simp add: counters_ok_def scan_init_def fill_begin_def Let_def)

lemma counters_ok_step:
  assumes "scan_step fs maxDepth s l s'" "counters_ok s"
  shows "counters_ok s'"
  using assms
proof (induction rule: scan_step.induct)
  case (walker s g' r' f')
  from fill_step_counts[OF walker(1)] walker(2) show ?case
    by (auto simp: counters_ok_def)
next
  case (timer s l s')
  then show ?case by (auto simp: counters_ok_def tick_def split: if_splits)
next
  case (completion s l s')
  then show ?case by (auto simp: counters_ok_def finish_def split: if_splits)
next
  case (signal s)
  then show ?case by (auto simp: counters_ok_def)
qed

lemma counters_ok_reachable:
  "scan_reachable fs maxDepth dirPath s \<Longrightarrow> counters_ok s"
  by (induction rule: scan_reachable.induct) (auto intro: counters_ok_init counters_ok_step)

text \<open>
  Claim C10: throughout every streaming scan \<open>dirsCompleted \<le> dirsFound\<close>. As long as
  the signal has not fired, \<open>dirsFound\<close> is \<open>dirsCompleted\<close> plus the number of
  \<open>fillNode\<close> calls that have not yet counted their directory as completed (the root
  counts from the start, a subdirectory from the step that discovers it, and each call
  counts once); so when the walk has returned without cancellation, \<open>dirsCompleted\<close>
  equals \<open>dirsFound\<close>.
\<close>

theorem progress_counters:
  assumes "scan_reachable fs maxDepth dirPath s"
  shows "dirsCompleted (progress (sh s)) \<le> dirsFound (progress (sh s))
       \<and> (\<not> aborted (sh s) \<longrightarrow>
            dirsFound (progress (sh s)) = dirsCompleted (progress (sh s)) + pending (walk s))
       \<and> (walk s = Returned \<and> \<not> aborted (sh s) \<longrightarrow>
            dirsCompleted (progress (sh s)) = dirsFound (progress (sh s)))"
  using counters_ok_reachable[OF assms] by (auto simp: counters_ok_def)

lemma fs_small_simps:
  "readdir fs_small ''/x'' = Some [\<lparr>d_name = ''a'', d_type = DFile\<rparr>,
                                \<lparr>d_name = ''b'', d_type = DDirectory\<rparr>,
                                \<lparr>d_name = ''l'', d_type = DSymlink\<rparr>]"
  "readdir fs_small ''/x/b'' = Some [\<lparr>d_name = ''c'', d_type = DFile\<rparr>]"
  "stat fs_small ''/x/a'' = Some 10"
  "stat fs_small ''/x/b/c'' = Some 20"
  by (simp_all add: fs_small_def)

lemma small_paths:
  "join ''/x'' ''a'' = ''/x/a''" "join ''/x'' ''b'' = ''/x/b''" "join ''/x/b'' ''c'' = ''/x/b/c''"
  "dir_name ''/x'' = ''x''" "extension_of ''a'' = None" "extension_of ''c'' = None"
  by (simp_all add: join_def dir_name_def basename_def extension_of_def extname_def toLowerCase_def)

lemma small_init:
  "scan_init ''/x'' 8 False =
     \<lparr>sh = \<lparr>progress = \<lparr>dirsFound = 1, dirsCompleted = 0\<rparr>, dirty = False, aborted = False\<rparr>,
      root = TreeNode ''x'' ''/x'' 0 Directory None None None, walk = AwaitReaddir,
      finished = False\<rparr>"
  by (simp add: scan_init_def fill_begin_def small_paths dir_node_def)

lemma small_step1:
  "fill_step fs_small 8 0
     (\<lparr>progress = \<lparr>dirsFound = 1, dirsCompleted = 0\<rparr>, dirty = False, aborted = False\<rparr>,
      TreeNode ''x'' ''/x'' 0 Directory None None None, AwaitReaddir)
     (\<lparr>progress = \<lparr>dirsFound = 2, dirsCompleted = 0\<rparr>, dirty = True, aborted = False\<rparr>,
      TreeNode ''x'' ''/x'' 0 Directory None
        (Some [TreeNode ''b'' ''/x/b'' 0 Directory None None None]) None,
      AwaitAll [AwaitReaddir] [\<lparr>d_name = ''a'', d_type = DFile\<rparr>])"
proof -
  let ?g = "\<lparr>progress = \<lparr>dirsFound = 1, dirsCompleted = 0\<rparr>, dirty = False, aborted = False\<rparr>"
  let ?n = "TreeNode ''x'' ''/x'' 0 Directory None None None"
  have rd: "readdir fs_small (path ?n) = Some [\<lparr>d_name = ''a'', d_type = DFile\<rparr>,
                                \<lparr>d_name = ''b'', d_type = DDirectory\<rparr>,
                                \<lparr>d_name = ''l'', d_type = DSymlink\<rparr>]"
    by (simp add: fs_small_simps)
  have na: "\<not> aborted ?g" by simp
  show ?thesis
    using fill_step.readdir_ok[OF rd na refl refl, of 8 0]
    by (simp add: is_subdir_def is_plain_file_def isSymbolicLink_def isDirectory_def isFile_def
        begin_child_def fill_begin_def small_paths dir_node_def set_children_def add_found_def
        markDirty_def numeral_2_eq_2)
qed

lemma small_step2:
  "fill_step fs_small 8 0
     (small_sh 0, small_x [small_b None], AwaitAll [AwaitReaddir] [\<lparr>d_name = ''a'', d_type = DFile\<rparr>])
     (small_sh 0, small_x [small_b None, small_a], AwaitAll [AwaitReaddir] [])"
proof -
  have "stat fs_small (join (path (small_x [small_b None])) (d_name \<lparr>d_name = ''a'', d_type = DFile\<rparr>)) = Some 10"
    by (simp add: small_x_def small_paths fs_small_simps)
  from fill_step.stat_ok[OF _ this, of "[\<lparr>d_name = ''a'', d_type = DFile\<rparr>]" "[small_b None]" 8 0 "small_sh 0" "[AwaitReaddir]"]
  show ?thesis
    by (simp add: small_x_def small_a_def small_paths set_children_def file_node_def markDirty_def
        small_sh_def)
qed

lemma small_step3b:
  "fill_step fs_small 8 1 (small_sh 0, small_b None, AwaitReaddir)
     (small_sh 0, small_b (Some []), AwaitAll [] [\<lparr>d_name = ''c'', d_type = DFile\<rparr>])"
proof -
  have rd: "readdir fs_small (path (small_b None)) = Some [\<lparr>d_name = ''c'', d_type = DFile\<rparr>]"
    by (simp add: small_b_def fs_small_simps)
  have na: "\<not> aborted (small_sh 0)" by (simp add: small_sh_def)
  show ?thesis
    using fill_step.readdir_ok[OF rd na refl refl, of 8 1]
    by (simp add: is_subdir_def is_plain_file_def isSymbolicLink_def isDirectory_def isFile_def
        small_b_def set_children_def add_found_def small_sh_def)
qed

lemma small_step4b:
  "fill_step fs_small 8 1 (small_sh 0, small_b (Some []), AwaitAll [] [\<lparr>d_name = ''c'', d_type = DFile\<rparr>])
     (small_sh 0, small_b (Some [small_c]), AwaitAll [] [])"
proof -
  have "stat fs_small (join (path (small_b (Some []))) (d_name \<lparr>d_name = ''c'', d_type = DFile\<rparr>)) = Some 20"
    by (simp add: small_b_def small_paths fs_small_simps)
  from fill_step.stat_ok[OF _ this, of "[\<lparr>d_name = ''c'', d_type = DFile\<rparr>]" "[]" 8 1 "small_sh 0" "[]"]
  show ?thesis
    by (simp add: small_b_def small_c_def small_paths set_children_def file_node_def markDirty_def
        small_sh_def)
qed

lemma small_step5b:
  "fill_step fs_small 8 1 (small_sh 0, small_b (Some [small_c]), AwaitAll [] [])
     (small_sh 1, small_b (Some [small_c]), Returned)"
  using fill_step.all_settled[of "[]" "[]" fs_small 8 1 "small_sh 0" "small_b (Some [small_c])"]
  by (simp add: small_sh_def markDirty_def inc_completed_def)

lemma small_lift:
  assumes "fill_step fs_small 8 1 (g, c, f) (g', c', f')"
  shows "fill_step fs_small 8 0 (g, small_x [c, small_a], AwaitAll [f] [])
           (g', small_x [c', small_a], AwaitAll [f'] [])"
  using fill_step.child_step[of 0 "[f]" "small_x [c, small_a]" "[c, small_a]" fs_small 8 0 g g' c' f' "[]"]
    assms
  by (simp add: small_x_def set_children_def)

lemma small_step6:
  "fill_step fs_small 8 0 (small_sh 1, small_x [small_b (Some [small_c]), small_a], AwaitAll [Returned] [])
     (small_sh 2, small_x [small_b (Some [small_c]), small_a], Returned)"
  using fill_step.all_settled[of "[Returned]" "[]" fs_small 8 0 "small_sh 1"]
  by (simp add: small_sh_def markDirty_def inc_completed_def numeral_2_eq_2)

lemma small_walk:
  assumes "scan_reachable fs_small 8 ''/x'' (small_state g r f)"
    and "fill_step fs_small 8 0 (g, r, f) (g', r', f')"
  shows "scan_reachable fs_small 8 ''/x'' (small_state g' r' f')"
proof -
  have "scan_step fs_small 8 (small_state g r f) Internal (small_state g' r' f')"
    using scan_step.walker[of fs_small 8 "small_state g r f" g' r' f'] assms(2)
    by (simp add: small_state_def)
  with assms(1) show ?thesis by (rule scan_reachable.step)
qed

lemma small_reachable: "scan_reachable fs_small 8 ''/x'' small_done"
proof -
  have "scan_reachable fs_small 8 ''/x'' (small_state
      \<lparr>progress = \<lparr>dirsFound = 1, dirsCompleted = 0\<rparr>, dirty = False, aborted = False\<rparr>
      (TreeNode ''x'' ''/x'' 0 Directory None None None) AwaitReaddir)"
    using scan_reachable.start[of fs_small 8 "''/x''" False]
    by (simp add: small_init small_state_def)
  from small_walk[OF this small_step1]
  have "scan_reachable fs_small 8 ''/x'' (small_state (small_sh 0) (small_x [small_b None])
      (AwaitAll [AwaitReaddir] [\<lparr>d_name = ''a'', d_type = DFile\<rparr>]))"
    by (simp add: small_sh_def small_x_def small_b_def)
  note small_walk[OF this small_step2]
  note small_walk[OF this small_lift[OF small_step3b]]
  note small_walk[OF this small_lift[OF small_step4b]]
  note small_walk[OF this small_lift[OF small_step5b]]
  note small_walk[OF this small_step6]
  then show ?thesis
    by (simp add: small_state_def small_done_def small_tree_def small_sh_def small_x_def
        small_b_def small_a_def small_c_def)
qed

lemma small_snapshot:
  "snapshot small_tree =
     TreeNode ''x'' ''/x'' 30 Directory None
       (Some [TreeNode ''b'' ''/x/b'' 20 Directory None
                (Some [TreeNode ''c'' ''/x/b/c'' 20 File None None None]) None,
              TreeNode ''a'' ''/x/a'' 10 File None None None]) None"
  by (simp add: snapshot_def small_tree_def sort_desc_def sum_sizes_def js_add_exact Let_def
      CHILD_LIMIT_DEPTH_def recalcSizes.simps applyChildLimits.simps)

lemma small_finish:
  "scan_step fs_small 8 small_done (Resolve (snapshot small_tree)) (small_done\<lparr>finished := True\<rparr>)"
  using scan_step.completion[of small_done "Resolve (snapshot small_tree)" "small_done\<lparr>finished := True\<rparr>" fs_small 8]
  by (simp add: small_done_def finish_def)

lemma empty_zero_leaf: "children n = None \<Longrightarrow> empty_zero n"
  by (simp add: empty_zero_def nodes_leaf)

lemma empty_zero_children:
  "children n = Some cs \<Longrightarrow>
   empty_zero n \<longleftrightarrow> (cs = [] \<longrightarrow> size_n n = 0) \<and> (\<forall>c\<in>set cs. empty_zero c)"
  by (auto simp: empty_zero_def nodes_children)

lemma empty_zero_set_children:
  "empty_zero (set_children cs n) \<longleftrightarrow> (cs = [] \<longrightarrow> size_n n = 0) \<and> (\<forall>c\<in>set cs. empty_zero c)"
  by (simp add: empty_zero_children[of "set_children cs n" cs])

lemma fills_wf_nth:
  "fills_wf cs fills \<Longrightarrow> j < length fills \<Longrightarrow> j < length cs \<and> fill_wf (cs ! j) (fills ! j)"
proof (induction fills arbitrary: cs j)
  case Nil
  then show ?case by simp
next
  case (Cons f fs)
  then show ?case by (cases cs; cases j) auto
qed

lemma fills_wf_update:
  "fills_wf cs fills \<Longrightarrow> j < length fills \<Longrightarrow> fill_wf c' f' \<Longrightarrow>
   fills_wf (cs[j := c']) (fills[j := f'])"
proof (induction fills arbitrary: cs j)
  case Nil
  then show ?case by simp
next
  case (Cons f fs)
  then show ?case by (cases cs; cases j) auto
qed

lemma fills_wf_append: "fills_wf cs fills \<Longrightarrow> fills_wf (cs @ xs) fills"
proof (induction fills arbitrary: cs)
  case Nil
  then show ?case by simp
next
  case (Cons f fs)
  then show ?case by (cases cs) auto
qed

lemma fills_wf_map:
  "(\<forall>e\<in>set es. fill_wf (fst (b e)) (snd (b e))) \<Longrightarrow>
   fills_wf (map (\<lambda>e. fst (b e)) es) (map (\<lambda>e. snd (b e)) es)"
  by (induction es) auto

lemma begin_child_wf:
  "fill_wf (fst (begin_child maxDepth depth p e)) (snd (begin_child maxDepth depth p e))"
  "children (fst (begin_child maxDepth depth p e)) = None"
  by (simp_all add: begin_child_def fill_begin_def)

lemma fill_step_wf:
  assumes "fill_step fs maxDepth depth (g, n, f) (g', n', f')"
    and "empty_zero n" and "fill_wf n f"
  shows "empty_zero n' \<and> fill_wf n' f'"
  using assms
proof (induction depth "(g, n, f)" "(g', n', f')" arbitrary: g n f g' n' f' rule: fill_step.induct)
  case (du_settled depth g node)
  then show ?case by (simp add: empty_zero_leaf)
next
  case (readdir_failed node depth g)
  then show ?case by simp
next
  case (readdir_aborted node entries g depth)
  then show ?case by simp
next
  case (readdir_ok node entries g subdirs g' depth)
  let ?kids = "map (\<lambda>e. fst (begin_child maxDepth depth (path node) e)) subdirs"
  have "\<forall>c\<in>set ?kids. empty_zero c"
    by (auto simp: begin_child_wf intro: empty_zero_leaf)
  moreover have "fills_wf ?kids (map (\<lambda>e. snd (begin_child maxDepth depth (path node) e)) subdirs)"
    by (intro fills_wf_map) (simp add: begin_child_wf)
  ultimately show ?case using readdir_ok
    by (simp add: empty_zero_set_children)
next
  case (stat_ok entry stats node sz cs depth g fills)
  let ?file = "file_node (d_name entry) (join (path node) (d_name entry)) sz"
  have "empty_zero ?file" by (simp add: empty_zero_leaf)
  then show ?case using stat_ok
    by (auto simp: empty_zero_set_children empty_zero_children[of node cs] fills_wf_append)
next
  case (stat_failed entry stats node depth g fills)
  then show ?case by simp
next
  case (child_step j fills node cs depth g g' c' f' stats)
  from child_step have wf: "size_n node = 0" "fills_wf cs fills" by simp_all
  have ez: "\<forall>c\<in>set cs. empty_zero c"
    using child_step by (simp add: empty_zero_children[of node cs])
  have "empty_zero (cs ! j)" "fill_wf (cs ! j) (fills ! j)"
    using ez fills_wf_nth[OF wf(2) child_step(1)] child_step(3) by auto
  with child_step(5) have new: "empty_zero c'" "fill_wf c' f'" by simp_all
  have "\<forall>c\<in>set (cs[j := c']). empty_zero c"
    using ez new(1) by (auto dest!: set_update_subset_insert[THEN subsetD])
  then show ?case
    using wf new fills_wf_update[OF wf(2) child_step(1) new(2)]
    by (simp add: empty_zero_set_children)
next
  case (all_settled fills stats depth g node)
  then show ?case by simp
qed

lemma scan_wf_init: "scan_wf (scan_init dirPath maxDepth ab)"
  by (simp add: scan_wf_def scan_init_def fill_begin_def Let_def empty_zero_leaf)

lemma scan_wf_step:
  assumes "scan_step fs maxDepth s l s'" "scan_wf s"
  shows "scan_wf s'"
  using assms
proof (induction rule: scan_step.induct)
  case (walker s g' r' f')
  from fill_step_wf[OF walker(1)] walker(2) show ?case
    by (auto simp: scan_wf_def)
next
  case (timer s l s')
  then show ?case by (auto simp: scan_wf_def tick_def split: if_splits)
next
  case (completion s l s')
  then show ?case by (auto simp: scan_wf_def finish_def split: if_splits)
next
  case (signal s)
  then show ?case by (auto simp: scan_wf_def)
qed

lemma scan_wf_reachable:
  "scan_reachable fs maxDepth dirPath s \<Longrightarrow> scan_wf s"
  by (induction rule: scan_reachable.induct) (auto intro: scan_wf_init scan_wf_step)

lemma published_snapshot:
  assumes "scan_step fs maxDepth s l s'" "published l = Some t"
  shows "t = snapshot (root s)"
  using assms
  by (induction rule: scan_step.induct) (auto simp: tick_def finish_def split: if_splits)

text \<open>
  Claim C1, as the code has it: in every published snapshot (every tree passed to
  \<open>onProgress\<close> and the tree \<open>scanDirectoryStreaming\<close> returns), every node whose children
  are present has as its size the total of its children's sizes, added from left to right
  in the order of the children as JavaScript adds numbers. That total is the exact sum
  whenever the children's sizes are not negative and the exact sum is at most \<open>2^53\<close>.
\<close>

theorem published_sizes:
  assumes "scan_reachable fs maxDepth dirPath s"
    and "scan_step fs maxDepth s l s'"
    and "published l = Some t"
  shows "\<forall>m\<in>set (nodes t). \<forall>cs. children m = Some cs \<longrightarrow>
           size_n m = js_sum (map size_n cs)
           \<and> ((\<forall>c\<in>set cs. 0 \<le> size_n c) \<and> sum_list (map size_n cs) \<le> 2 ^ 53 \<longrightarrow>
                size_n m = sum_list (map size_n cs))"
proof -
  have "empty_zero (root s)"
    using scan_wf_reachable[OF assms(1)] by (simp add: scan_wf_def)
  then have "\<forall>m\<in>set (nodes (root s)). children m = Some [] \<longrightarrow> size_n m = 0"
    by (simp add: empty_zero_def)
  then have "\<forall>m\<in>set (nodes t). \<forall>cs. children m = Some cs \<longrightarrow> size_n m = js_sum (map size_n cs)"
    unfolding published_snapshot[OF assms(2,3)] by (rule snapshot_sizes_core)
  then show ?thesis using js_sum_exact by fastforce
qed

text \<open>
  The scan of \<open>fs_small\<close> returns a root of size 30 with the children \<open>b\<close> (20) and
  \<open>a\<close> (10).
\<close>

theorem published_sizes_witness:
  "scan_reachable fs_small 8 ''/x'' small_done
   \<and> scan_step fs_small 8 small_done (Resolve (snapshot small_tree)) (small_done\<lparr>finished := True\<rparr>)
   \<and> snapshot small_tree \<in> set (nodes (snapshot small_tree))
   \<and> children (snapshot small_tree) =
       Some [TreeNode ''b'' ''/x/b'' 20 Directory None
                (Some [TreeNode ''c'' ''/x/b/c'' 20 File None None None]) None,
             TreeNode ''a'' ''/x/a'' 10 File None None None]
   \<and> size_n (snapshot small_tree) = js_sum [20, 10]
   \<and> size_n (snapshot small_tree) = 20 + 10"
proof -
  have ch: "children (snapshot small_tree) =
       Some [TreeNode ''b'' ''/x/b'' 20 Directory None
                (Some [TreeNode ''c'' ''/x/b/c'' 20 File None None None]) None,
             TreeNode ''a'' ''/x/a'' 10 File None None None]"
    by (simp add: small_snapshot)
  have p: "published (Resolve (snapshot small_tree)) = Some (snapshot small_tree)" by simp
  have "size_n (snapshot small_tree) = js_sum [20, 10]
      \<and> size_n (snapshot small_tree) = 20 + 10"
    using published_sizes[OF small_reachable small_finish p, rule_format, OF nodes_self ch]
    by simp
  then show ?thesis
    using small_reachable small_finish nodes_self ch by simp
qed

text \<open>The scan of \<open>fs_small\<close> ends with both counters at 2.\<close>

theorem progress_counters_witness:
  "scan_reachable fs_small 8 ''/x'' small_done \<and> walk small_done = Returned
   \<and> \<not> aborted (sh small_done)
   \<and> dirsCompleted (progress (sh small_done)) = dirsFound (progress (sh small_done))
   \<and> dirsFound (progress (sh small_done)) = 2"
  using progress_counters[OF small_reachable] small_reachable
  by (simp add: small_done_def)

section \<open>ConcurrencyLimiter: at most 64 slots held, waiters served in order of arrival\<close>

lemma do_acquire_fields:
  "active (lim (do_acquire s)) =
     (if active (lim s) < MAX_CONCURRENT then active (lim s) + 1 else active (lim s))"
  "queue (lim (do_acquire s)) =
     (if active (lim s) < MAX_CONCURRENT then queue (lim s) else queue (lim s) @ [ticket s])"
  "holders (do_acquire s) =
     (if active (lim s) < MAX_CONCURRENT then insert (ticket s) (holders s) else holders s)"
  "ticket (do_acquire s) = Suc (ticket s)"
  by (simp_all add: do_acquire_def acquireSlot_def Let_def)

lemma do_release_fields:
  "active (lim (do_release w s)) =
     (if queue (lim s) = [] then active (lim s) - 1 else active (lim s))"
  "queue (lim (do_release w s)) = tl (queue (lim s))"
  "holders (do_release w s) =
     (if queue (lim s) = [] then holders s - {w} else insert (hd (queue (lim s))) (holders s - {w}))"
  "ticket (do_release w s) = ticket s"
  by (simp_all add: do_release_def releaseSlot_def Let_def split: list.splits)

lemma limiter_inv_init: "limiter_inv limiter_init"
  by (simp add: limiter_inv_def limiter_init_def MAX_CONCURRENT_def)

lemma limiter_inv_acquire:
  assumes inv: "limiter_inv s"
  shows "limiter_inv (do_acquire s)"
proof (cases "active (lim s) < MAX_CONCURRENT")
  case True
  have fresh: "ticket s \<notin> holders s" using inv by (auto simp: limiter_inv_def)
  have q: "queue (lim s) = []" using inv True by (auto simp: limiter_inv_def)
  have fin: "finite (holders s)" and cd: "int (card (holders s)) = active (lim s)"
    and hs: "\<forall>w\<in>holders s. w < ticket s"
    using inv by (simp_all add: limiter_inv_def)
  show ?thesis
    unfolding limiter_inv_def do_acquire_fields
    using True fresh q fin cd hs by (simp add: less_Suc_eq)
next
  case False
  have fin: "finite (holders s)" and cd: "int (card (holders s)) = active (lim s)"
    and le: "active (lim s) \<le> MAX_CONCURRENT"
    and srt: "sorted_wrt (<) (queue (lim s))"
    and qs: "\<forall>w\<in>set (queue (lim s)). w < ticket s \<and> w \<notin> holders s"
    and hs: "\<forall>w\<in>holders s. w < ticket s"
    using inv by (simp_all add: limiter_inv_def)
  have fresh: "ticket s \<notin> holders s" using hs by auto
  show ?thesis
    unfolding limiter_inv_def do_acquire_fields
    using False fin cd le srt qs hs fresh by (auto simp: sorted_wrt_append less_Suc_eq)
qed

lemma limiter_inv_release:
  assumes inv: "limiter_inv s" and w: "w \<in> holders s"
  shows "limiter_inv (do_release w s)"
proof -
  have fin: "finite (holders s)" and cd: "int (card (holders s)) = active (lim s)"
    and le: "active (lim s) \<le> MAX_CONCURRENT"
    and full: "queue (lim s) \<noteq> [] \<longrightarrow> active (lim s) = MAX_CONCURRENT"
    and srt: "sorted_wrt (<) (queue (lim s))"
    and qs: "\<forall>w\<in>set (queue (lim s)). w < ticket s \<and> w \<notin> holders s"
    and hs: "\<forall>w\<in>holders s. w < ticket s"
    using inv by (simp_all add: limiter_inv_def)
  have pos: "0 < card (holders s)" using fin w by (auto simp: card_gt_0_iff)
  show ?thesis
  proof (cases "queue (lim s)")
    case Nil
    have "int (card (holders s - {w})) = active (lim s) - 1"
      using fin w cd pos by (simp add: card_Diff_singleton of_nat_diff)
    then show ?thesis
      unfolding limiter_inv_def do_release_fields
      using Nil fin le hs by simp
  next
    case (Cons n rest)
    have n: "n \<notin> holders s" "n < ticket s" using qs Cons by auto
    have "card (insert n (holders s - {w})) = card (holders s)"
      using n(1) fin w pos by (simp add: card_Diff_singleton)
    moreover have "\<forall>v\<in>set rest. v \<noteq> n" using srt Cons by auto
    ultimately show ?thesis
      unfolding limiter_inv_def do_release_fields
      using Cons fin cd le full srt qs hs n by auto
  qed
qed

lemma limiter_inv_reachable: "limiter_reachable s \<Longrightarrow> limiter_inv s"
  unfolding limiter_reachable_def
proof (induction rule: rtranclp_induct)
  case base
  then show ?case by (rule limiter_inv_init)
next
  case (step y z)
  from step(2) show ?case
  proof cases
    case acquire
    then show ?thesis using step(3) by (simp add: limiter_inv_acquire)
  next
    case (release w)
    then show ?thesis using step(3) by (simp add: limiter_inv_release)
  qed
qed

text \<open>
  Claim C7: in every reachable state of the limiter the number of slots acquired and not
  released is the counter \<open>active\<close> and never exceeds 64; a release by a holder hands
  the slot to the oldest waiter when there is one (the head of the queue, which has the
  smallest arrival number; a new waiter is appended at the end) and otherwise decrements
  \<open>active\<close>, which frees one slot.
\<close>

theorem limiter_bound_fifo:
  assumes "limiter_reachable s"
  shows "finite (holders s) \<and> int (card (holders s)) = active (lim s)
       \<and> active (lim s) \<le> MAX_CONCURRENT
       \<and> (\<forall>w\<in>holders s.
            (queue (lim s) = [] \<longrightarrow>
               holders (do_release w s) = holders s - {w}
               \<and> active (lim (do_release w s)) = active (lim s) - 1)
          \<and> (queue (lim s) \<noteq> [] \<longrightarrow>
               holders (do_release w s) = insert (hd (queue (lim s))) (holders s - {w})
               \<and> hd (queue (lim s)) = Min (set (queue (lim s)))
               \<and> queue (lim (do_release w s)) = tl (queue (lim s))
               \<and> active (lim (do_release w s)) = active (lim s)))
       \<and> sorted_wrt (<) (queue (lim s))
       \<and> (\<forall>v\<in>set (queue (lim s)). v < ticket s)
       \<and> queue (lim (do_acquire s)) =
           (if active (lim s) < MAX_CONCURRENT then queue (lim s) else queue (lim s) @ [ticket s])"
proof -
  have inv: "limiter_inv s" using assms by (rule limiter_inv_reachable)
  then have srt: "sorted_wrt (<) (queue (lim s))" by (simp add: limiter_inv_def)
  have "hd (queue (lim s)) = Min (set (queue (lim s)))" if ne: "queue (lim s) \<noteq> []"
  proof -
    obtain n rest where q: "queue (lim s) = n # rest" using ne by (cases "queue (lim s)") simp_all
    then have "\<forall>v\<in>set rest. n < v" using srt by simp
    then have "Min (set (n # rest)) = n"
      by (intro Min_eqI) (auto simp: less_imp_le)
    then show ?thesis using q by simp
  qed
  then show ?thesis using inv
    by (simp add: limiter_inv_def do_release_fields do_acquire_fields)
qed

lemma after_acquires_reachable: "n \<le> 64 \<Longrightarrow> limiter_reachable (after_acquires n)"
proof (induction n)
  case 0
  then show ?case by (simp add: limiter_reachable_def after_acquires_def limiter_init_def)
next
  case (Suc n)
  then have r: "limiter_step\<^sup>*\<^sup>* limiter_init (after_acquires n)"
    by (simp add: limiter_reachable_def)
  have "do_acquire (after_acquires n) = after_acquires (Suc n)"
    using Suc(2) by (simp add: do_acquire_def acquireSlot_def after_acquires_def MAX_CONCURRENT_def
        lessThan_Suc)
  then have "limiter_step (after_acquires n) (after_acquires (Suc n))"
    using limiter_step.acquire[of "after_acquires n"] by simp
  with r show ?case unfolding limiter_reachable_def by (rule rtranclp.rtrancl_into_rtrancl)
qed

lemma full_waiting_reachable: "limiter_reachable full_waiting"
proof -
  have r: "limiter_step\<^sup>*\<^sup>* limiter_init (after_acquires 64)"
    using after_acquires_reachable[of 64] by (simp add: limiter_reachable_def)
  have "do_acquire (after_acquires 64) = full_waiting"
    by (simp add: do_acquire_def acquireSlot_def after_acquires_def MAX_CONCURRENT_def
        full_waiting_def)
  then have "limiter_step (after_acquires 64) full_waiting"
    using limiter_step.acquire[of "after_acquires 64"] by simp
  with r show ?thesis unfolding limiter_reachable_def by (rule rtranclp.rtrancl_into_rtrancl)
qed

text \<open>
  With 64 holders and caller 64 waiting, the release by caller 0 grants the slot to
  caller 64; a caller arriving instead queues after caller 64.
\<close>

theorem limiter_bound_fifo_witness:
  "limiter_reachable full_waiting \<and> (0::nat) \<in> holders full_waiting
   \<and> card (holders full_waiting) = 64 \<and> queue (lim full_waiting) = [64]
   \<and> holders (do_release 0 full_waiting) = insert 64 ({..<64} - {0})
   \<and> queue (lim (do_release 0 full_waiting)) = []
   \<and> active (lim (do_release 0 full_waiting)) = 64
   \<and> queue (lim (do_acquire full_waiting)) = [64, 65]"
proof -
  have h: "(0::nat) \<in> holders full_waiting" by (simp add: full_waiting_def)
  from limiter_bound_fifo[OF full_waiting_reachable] h
  have "holders (do_release 0 full_waiting) = insert 64 ({..<64} - {0})
      \<and> queue (lim (do_release 0 full_waiting)) = []
      \<and> active (lim (do_release 0 full_waiting)) = 64
      \<and> queue (lim (do_acquire full_waiting)) = [64, 65]"
    by (simp add: full_waiting_def MAX_CONCURRENT_def)
  then show ?thesis using full_waiting_reachable h by (simp add: full_waiting_def)
qed


section \<open>ScanCoordinator: one scan at a time, a cancelled scan is silent\<close>

lemma abort_scan_fields [simp]:
  "length (scans (abort_scan i c)) = length (scans c)"
  "activeScan (abort_scan i c) = activeScan c"
  "sseListeners (abort_scan i c) = sseListeners c"
  "delivered (abort_scan i c) = delivered c"
  by (simp_all add: abort_scan_def)

lemma abort_scan_nth:
  "j < length (scans c) \<Longrightarrow>
   scans (abort_scan i c) ! j =
     (if j = i
      then (scans c ! i)\<lparr>scan_run :=
             (scan_run (scans c ! i))\<lparr>sh := (sh (scan_run (scans c ! i)))\<lparr>aborted := True\<rparr>\<rparr>\<rparr>
      else scans c ! j)"
  by (simp add: abort_scan_def nth_list_update)

lemma supersede_fields [simp]:
  "length (scans (supersede c)) = length (scans c)"
  "activeScan (supersede c) = activeScan c"
  "sseListeners (supersede c) = sseListeners c"
  "delivered (supersede c) = delivered c"
  by (simp_all add: supersede_def split: option.splits)

lemma supersede_nth:
  "j < length (scans c) \<Longrightarrow>
   scans (supersede c) ! j =
     (if activeScan c = Some j \<and> \<not> scan_done (scans c ! j)
      then (scans c ! j)\<lparr>scan_run :=
             (scan_run (scans c ! j))\<lparr>sh := (sh (scan_run (scans c ! j)))\<lparr>aborted := True\<rparr>\<rparr>\<rparr>
      else scans c ! j)"
  by (auto simp: supersede_def abort_scan_nth split: option.splits)

lemma startBackgroundScan_eq:
  "startBackgroundScan dirPath c =
     (supersede c)\<lparr>scans := scans (supersede c) @ [new_scan dirPath],
                   activeScan := Some (length (scans c))\<rparr>"
  by (simp add: startBackgroundScan_def supersede_def new_scan_def Let_def split: option.splits)

lemma startBackgroundScan_fields [simp]:
  "length (scans (startBackgroundScan p c)) = Suc (length (scans c))"
  "activeScan (startBackgroundScan p c) = Some (length (scans c))"
  "sseListeners (startBackgroundScan p c) = sseListeners c"
  "delivered (startBackgroundScan p c) = delivered c"
  "scans (startBackgroundScan p c) ! length (scans c) = new_scan p"
  by (simp_all add: startBackgroundScan_eq nth_append)

lemma startBackgroundScan_nth:
  "j < length (scans c) \<Longrightarrow>
   scans (startBackgroundScan p c) ! j = scans (supersede c) ! j"
  by (simp add: startBackgroundScan_eq nth_append)

lemma new_scan_fields [simp]:
  "scan_path (new_scan p) = p" "scan_done (new_scan p) = False" "scan_error (new_scan p) = None"
  "scan_tree (new_scan p) = None" "scan_run (new_scan p) = scan_init p MAX_DEPTH False"
  by (simp_all add: new_scan_def)

lemma scan_init_not_aborted [simp]: "aborted (sh (scan_init p m False)) = False"
  by (simp add: scan_init_def Let_def)

lemma scan_step_aborted:
  assumes "scan_step fs maxDepth s l s'" "l \<noteq> SignalAbort"
  shows "aborted (sh s') = aborted (sh s)"
  using assms
proof (induction rule: scan_step.induct)
  case (walker s g' r' f')
  from fill_step_counts[OF walker(1)] show ?case by simp
next
  case (timer s l s')
  then show ?case by (auto simp: tick_def split: if_splits)
next
  case (completion s l s')
  then show ?case by (auto simp: finish_def split: if_splits)
next
  case (signal s)
  then show ?case by simp
qed

lemma scan_step_aborted_label:
  assumes "scan_step fs maxDepth s l s'" "aborted (sh s)"
  shows "l = Internal \<or> l = RejectAbort \<or> l = SignalAbort"
  using assms
  by (induction rule: scan_step.induct) (auto simp: tick_def finish_def split: if_splits)

lemma update_scan_fields [simp]:
  "length (scans (update_scan i f c)) = length (scans c)"
  "activeScan (update_scan i f c) = activeScan c"
  "sseListeners (update_scan i f c) = sseListeners c"
  "delivered (update_scan i f c) = delivered c"
  by (simp_all add: update_scan_def)

lemma update_scan_nth:
  "j < length (scans c) \<Longrightarrow>
   scans (update_scan i f c) ! j = (if j = i then f (scans c ! i) else scans c ! j)"
  by (simp add: update_scan_def nth_list_update)

lemma broadcast_fields [simp]:
  "scans (broadcast i ev c) = scans c"
  "activeScan (broadcast i ev c) = activeScan c"
  "delivered (broadcast i ev c) = delivered c @ map (\<lambda>l. (l, i, ev)) (sseListeners c)"
  by (simp_all add: broadcast_def)

lemma on_label_fields [simp]:
  "length (scans (on_label i l c)) = length (scans c)"
  "activeScan (on_label i l c) = activeScan c"
  by (cases l; simp)+

lemma on_label_run:
  "j < length (scans c) \<Longrightarrow> scan_run (scans (on_label i l c) ! j) = scan_run (scans c ! j)"
  by (cases l) (simp_all add: update_scan_nth)

lemma on_label_done:
  "j < length (scans c) \<Longrightarrow> scan_done (scans c ! j) \<Longrightarrow> scan_done (scans (on_label i l c) ! j)"
  by (cases l) (auto simp: update_scan_nth)

lemma on_label_other:
  "j < length (scans c) \<Longrightarrow> j \<noteq> i \<Longrightarrow> scans (on_label i l c) ! j = scans c ! j"
  by (cases l) (simp_all add: update_scan_nth)

lemma on_label_silent:
  "l = Internal \<or> l = RejectAbort \<or> l = SignalAbort \<Longrightarrow> on_label i l c = c"
  by auto

lemma events_of_on_label_other:
  "j \<noteq> i \<Longrightarrow> events_of i (on_label j l c) = events_of i c"
  by (cases l) (simp_all add: events_of_def update_scan_def comp_def)

lemma subscribe_fields [simp]:
  "scans (subscribe l c) = scans c" "activeScan (subscribe l c) = activeScan c"
  by (simp_all add: subscribe_def split: option.splits)

lemma events_of_subscribe:
  "activeScan c \<noteq> Some i \<Longrightarrow> events_of i (subscribe l c) = events_of i c"
  by (auto simp: subscribe_def events_of_def split: option.splits)

lemma scans_requestScan_nth:
  "j < length (scans c) \<Longrightarrow> activeScan c \<noteq> Some j \<Longrightarrow> scans (requestScan p c) ! j = scans c ! j"
  by (simp add: requestScan_def startBackgroundScan_nth supersede_nth)

lemma requestScan_fields [simp]:
  "delivered (requestScan p c) = delivered c" "sseListeners (requestScan p c) = sseListeners c"
  by (simp_all add: requestScan_def)

lemma length_requestScan: "length (scans c) \<le> length (scans (requestScan p c))"
  by (simp add: requestScan_def)

lemma coord_inv_init: "coord_inv coordinator_init"
  by (simp add: coord_inv_def coordinator_init_def)

lemma coord_inv_start: "coord_inv c \<Longrightarrow> coord_inv (startBackgroundScan p c)"
  unfolding coord_inv_def
  by (auto simp: scan_aborted_def startBackgroundScan_nth supersede_nth less_Suc_eq)

lemma coord_inv_request: "coord_inv c \<Longrightarrow> coord_inv (api_scan p l c)"
proof -
  assume "coord_inv c"
  then have "coord_inv (requestScan p c)"
    by (simp add: requestScan_def coord_inv_start)
  then show ?thesis
    by (simp add: api_scan_def coord_inv_def scan_aborted_def)
qed

lemma coord_inv_event:
  assumes "coord_inv c" "i < length (scans c)"
    "scan_step fs MAX_DEPTH (scan_run (scans c ! i)) lbl s'" "lbl \<noteq> SignalAbort"
  shows "coord_inv (on_label i lbl (update_scan i (\<lambda>scan. scan\<lparr>scan_run := s'\<rparr>) c))"
proof -
  let ?c1 = "update_scan i (\<lambda>scan. scan\<lparr>scan_run := s'\<rparr>) c"
  have ab: "aborted (sh s') = aborted (sh (scan_run (scans c ! i)))"
    using assms(3,4) by (rule scan_step_aborted)
  have run: "aborted (sh (scan_run (scans (on_label i lbl ?c1) ! j))) = aborted (sh (scan_run (scans c ! j)))"
    if "j < length (scans c)" for j
    using that ab by (simp add: on_label_run update_scan_nth)
  have dn: "scan_done (scans (on_label i lbl ?c1) ! j)"
    if "j < length (scans c)" "scan_done (scans c ! j)" for j
    using that by (intro on_label_done) (auto simp: update_scan_nth)
  show ?thesis
    using assms(1) run dn unfolding coord_inv_def scan_aborted_def by auto
qed

lemma coord_inv_step: "coord_step fs c c' \<Longrightarrow> coord_inv c \<Longrightarrow> coord_inv c'"
proof (induction rule: coord_step.induct)
  case (request c resolved l)
  then show ?case by (simp add: coord_inv_request)
next
  case (disconnect c l)
  then show ?case by (simp add: coord_inv_def scan_aborted_def)
next
  case (scan_event i c lbl s')
  then show ?case by (simp add: coord_inv_event)
qed

lemma coord_inv_reachable: "coord_reachable fs c \<Longrightarrow> coord_inv c"
  unfolding coord_reachable_def
  by (induction rule: rtranclp_induct) (auto intro: coord_inv_init coord_inv_step)

lemma silent_step:
  assumes "coord_step fs c c'" "coord_inv c" "i < length (scans c)" "scan_aborted c i"
  shows "silenced i c c'"
  using assms
proof (induction rule: coord_step.induct)
  case (request c resolved l)
  have na: "activeScan c \<noteq> Some i" using request by (auto simp: coord_inv_def)
  have na': "activeScan (requestScan resolved c) \<noteq> Some i"
    using na request(2) by (auto simp: requestScan_def)
  have "scans (requestScan resolved c) ! i = scans c ! i"
    using request(2) na by (rule scans_requestScan_nth)
  moreover have "i < length (scans (requestScan resolved c))"
    using request(2) length_requestScan[of c resolved] by simp
  ultimately show ?case
    using request na' by (simp add: silenced_def api_scan_def scan_aborted_def events_of_subscribe)
       (simp add: events_of_def)
next
  case (disconnect c l)
  then show ?case by (simp add: silenced_def scan_aborted_def events_of_def)
next
  case (scan_event j c lbl s')
  let ?c1 = "update_scan j (\<lambda>scan. scan\<lparr>scan_run := s'\<rparr>) c"
  show ?case
  proof (cases "j = i")
    case True
    have "lbl = Internal \<or> lbl = RejectAbort \<or> lbl = SignalAbort"
      using scan_event(2,6) True by (auto simp: scan_aborted_def dest: scan_step_aborted_label)
    then have "on_label j lbl ?c1 = ?c1" by (rule on_label_silent)
    moreover have "aborted (sh s')"
      using scan_step_aborted[OF scan_event(2,3)] scan_event(6) True by (simp add: scan_aborted_def)
    ultimately show ?thesis
      using scan_event True
      by (simp add: silenced_def scan_aborted_def update_scan_nth events_of_def)
  next
    case False
    then have "scans (on_label j lbl ?c1) ! i = scans c ! i"
      using scan_event(5) by (simp add: on_label_other update_scan_nth)
    moreover have "events_of i (on_label j lbl ?c1) = events_of i c"
      using False by (simp add: events_of_on_label_other) (simp add: events_of_def)
    ultimately show ?thesis
      using scan_event by (simp add: silenced_def scan_aborted_def)
  qed
qed

lemma silent_steps:
  assumes "(coord_step fs)\<^sup>*\<^sup>* c c'" "coord_inv c" "i < length (scans c)" "scan_aborted c i"
  shows "silenced i c c' \<and> coord_inv c'"
  using assms
proof (induction rule: rtranclp_induct)
  case base
  then show ?case by (simp add: silenced_def)
next
  case (step y z)
  then have y: "silenced i c y" "coord_inv y" by simp_all
  then have "silenced i y z"
    using silent_step[OF step(2)] by (simp add: silenced_def)
  with y step(2) show ?case
    by (auto simp: silenced_def intro: coord_inv_step)
qed


text \<open>
  Claim C8, as the code has it: once the signal of a scan has fired, no further progress,
  done or error event of that scan is delivered to any listener, and the coordinator's
  record of the scan (done, error, last tree) stays as it is; an event is a progress, a
  done or an error event, there is no fourth kind.
\<close>

theorem cancelled_scan_silent:
  assumes "coord_reachable fs c" "i < length (scans c)" "scan_aborted c i"
    and "(coord_step fs)\<^sup>*\<^sup>* c c'"
  shows "events_of i c' = events_of i c
       \<and> scan_done (scans c' ! i) = scan_done (scans c ! i)
       \<and> scan_error (scans c' ! i) = scan_error (scans c ! i)
       \<and> scan_tree (scans c' ! i) = scan_tree (scans c ! i)
       \<and> scan_aborted c' i
       \<and> (\<forall>e. (\<exists>t p. e = ProgressEvent t p) \<or> (\<exists>t. e = DoneEvent t) \<or> (\<exists>m. e = ErrorEvent m))"
proof -
  have "coord_inv c" using assms(1) by (rule coord_inv_reachable)
  from silent_steps[OF assms(4) this assms(2,3)] have "silenced i c c'" by simp
  moreover have "(\<exists>t p. e = ProgressEvent t p) \<or> (\<exists>t. e = DoneEvent t) \<or> (\<exists>m. e = ErrorEvent m)" for e
    by (cases e) auto
  ultimately show ?thesis by (simp add: silenced_def)
qed

lemma chain_listing:
  "scan_step fs_chain MAX_DEPTH (scan_init p MAX_DEPTH False) Internal (after_listing p True False)"
proof -
  let ?g = "\<lparr>progress = \<lparr>dirsFound = 1, dirsCompleted = 0\<rparr>, dirty = False, aborted = False\<rparr>"
  let ?n = "dir_node (dir_name p) p"
  have init: "scan_init p MAX_DEPTH False = \<lparr>sh = ?g, root = ?n, walk = AwaitReaddir, finished = False\<rparr>"
    by (simp add: scan_init_def fill_begin_def MAX_DEPTH_def Let_def)
  have rd: "readdir fs_chain (path ?n) = Some [\<lparr>d_name = ''d'', d_type = DDirectory\<rparr>]"
    by (simp add: fs_chain_def)
  have na: "\<not> aborted ?g" by simp
  have "fill_step fs_chain MAX_DEPTH 0 (?g, ?n, AwaitReaddir)
     (\<lparr>progress = \<lparr>dirsFound = 2, dirsCompleted = 0\<rparr>, dirty = True, aborted = False\<rparr>,
      listed_root p, AwaitAll [AwaitReaddir] [])"
    using fill_step.readdir_ok[OF rd na refl refl, of MAX_DEPTH 0]
    by (simp add: is_subdir_def is_plain_file_def isSymbolicLink_def isDirectory_def isFile_def
        begin_child_def fill_begin_def add_found_def markDirty_def numeral_2_eq_2 MAX_DEPTH_def
        listed_root_def)
  then show ?thesis
    using scan_step.walker[of fs_chain MAX_DEPTH "scan_init p MAX_DEPTH False"
        "\<lparr>progress = \<lparr>dirsFound = 2, dirsCompleted = 0\<rparr>, dirty = True, aborted = False\<rparr>"
        "listed_root p" "AwaitAll [AwaitReaddir] []"]
    by (simp add: init after_listing_def)
qed

lemma chain_tick:
  "scan_step fs_chain MAX_DEPTH (after_listing p True False)
     (Progress (snapshot (listed_root p)) \<lparr>dirsFound = 2, dirsCompleted = 0\<rparr>)
     (after_listing p False False)"
  using scan_step.timer[of "after_listing p True False"
      "Progress (snapshot (listed_root p)) \<lparr>dirsFound = 2, dirsCompleted = 0\<rparr>"
      "after_listing p False False" fs_chain MAX_DEPTH]
  by (simp add: after_listing_def tick_def)

lemma cx_step1: "coord_step fs_chain coordinator_init cx1"
proof -
  have "api_scan ''/a'' 0 coordinator_init = cx1"
    by (simp add: api_scan_def requestScan_def needsNew_def startBackgroundScan_def subscribe_def
        coordinator_init_def cx1_def scan_obj_def)
  then show ?thesis using coord_step.request[of fs_chain coordinator_init "''/a''" 0] by simp
qed

lemma cx_step2: "coord_step fs_chain cx1 cx2"
proof -
  have "scan_step fs_chain MAX_DEPTH (scan_run (scans cx1 ! 0)) Internal (after_listing ''/a'' True False)"
    using chain_listing[of "''/a''"] by (simp add: cx1_def scan_obj_def)
  from coord_step.scan_event[OF _ this] show ?thesis
    by (simp add: cx1_def cx2_def update_scan_def scan_obj_def)
qed

lemma cx_step3: "coord_step fs_chain cx2 cx3"
proof -
  have "scan_step fs_chain MAX_DEPTH (scan_run (scans cx2 ! 0))
      (Progress (snapshot (listed_root ''/a'')) progress2) (after_listing ''/a'' False False)"
    using chain_tick[of "''/a''"] by (simp add: cx2_def scan_obj_def progress2_def)
  from coord_step.scan_event[OF _ this] show ?thesis
    by (simp add: cx2_def cx3_def update_scan_def scan_obj_def broadcast_def)
qed

lemma cx_step4: "coord_step fs_chain cx3 cx4"
proof -
  have "api_scan ''/b'' 1 cx3 = cx4"
    by (simp add: api_scan_def requestScan_def needsNew_def startBackgroundScan_def subscribe_def
        abort_scan_def cx3_def cx4_def scan_obj_def after_listing_def)
  then show ?thesis using coord_step.request[of fs_chain cx3 "''/b''" 1] by simp
qed

lemma cx_step5: "coord_step fs_chain cx4 cx5"
proof -
  have "scan_step fs_chain MAX_DEPTH (scan_run (scans cx4 ! 1)) Internal (after_listing ''/b'' True False)"
    using chain_listing[of "''/b''"] by (simp add: cx4_def scan_obj_def)
  from coord_step.scan_event[OF _ this] show ?thesis
    by (simp add: cx4_def cx5_def update_scan_def scan_obj_def)
qed

lemma cx_step6: "coord_step fs_chain cx5 cx6"
proof -
  have "scan_step fs_chain MAX_DEPTH (scan_run (scans cx5 ! 1))
      (Progress (snapshot (listed_root ''/b'')) progress2) (after_listing ''/b'' False False)"
    using chain_tick[of "''/b''"] by (simp add: cx5_def scan_obj_def progress2_def)
  from coord_step.scan_event[OF _ this] show ?thesis
    by (simp add: cx5_def cx6_def update_scan_def scan_obj_def broadcast_def)
qed

lemma cx4_reachable: "coord_reachable fs_chain cx4"
  unfolding coord_reachable_def
  using cx_step1 cx_step2 cx_step3 cx_step4
  by (meson rtranclp.rtrancl_into_rtrancl rtranclp.rtrancl_refl)

lemma cx3_reachable: "coord_reachable fs_chain cx3"
  unfolding coord_reachable_def
  using cx_step1 cx_step2 cx_step3
  by (meson rtranclp.rtrancl_into_rtrancl rtranclp.rtrancl_refl)

lemma cx4_cx6: "(coord_step fs_chain)\<^sup>*\<^sup>* cx4 cx6"
  using cx_step5 cx_step6
  by (meson rtranclp.rtrancl_into_rtrancl rtranclp.rtrancl_refl)

text \<open>
  After the request for \<open>/b\<close> the only event of the cancelled scan of \<open>/a\<close> is, and
  remains, the progress event it delivered before.
\<close>

theorem cancelled_scan_silent_witness:
  "coord_reachable fs_chain cx4 \<and> scan_aborted cx4 0 \<and> (coord_step fs_chain)\<^sup>*\<^sup>* cx4 cx6
   \<and> events_of 0 cx6 = [(0, 0, ProgressEvent (snapshot (listed_root ''/a'')) (Some progress2))]
   \<and> scan_error (scans cx6 ! 0) = None \<and> \<not> scan_done (scans cx6 ! 0)"
proof -
  have ab: "scan_aborted cx4 0" by (simp add: scan_aborted_def cx4_def scan_obj_def after_listing_def)
  have len: "0 < length (scans cx4)" by (simp add: cx4_def)
  from cancelled_scan_silent[OF cx4_reachable len ab cx4_cx6]
  have "events_of 0 cx6 = events_of 0 cx4"
    "scan_error (scans cx6 ! 0) = scan_error (scans cx4 ! 0)"
    "scan_done (scans cx6 ! 0) = scan_done (scans cx4 ! 0)"
    by simp_all
  then show ?thesis using cx4_reachable ab cx4_cx6
    by (simp add: events_of_def cx4_def scan_obj_def)
qed

text \<open>
  Claim C8, as stated, speaks of the subscribers of the cancelled scan. The listeners are
  one set for the whole process (\<open>sseListeners\<close>): listener 0 subscribed to the scan of
  \<open>/a\<close> and received its progress event; after that scan is cancelled, listener 0 is
  sent the progress event of the scan of \<open>/b\<close>.
\<close>

theorem cancelled_scan_listener_counterexample:
  "coord_reachable fs_chain cx3
   \<and> (0, 0, ProgressEvent (snapshot (listed_root ''/a'')) (Some progress2)) \<in> set (delivered cx3)
   \<and> coord_step fs_chain cx3 cx4 \<and> \<not> scan_aborted cx3 0 \<and> scan_aborted cx4 0
   \<and> (coord_step fs_chain)\<^sup>*\<^sup>* cx4 cx6
   \<and> filter (\<lambda>d. fst d = 0) (delivered cx4) =
        [(0, 0, ProgressEvent (snapshot (listed_root ''/a'')) (Some progress2))]
   \<and> filter (\<lambda>d. fst d = 0) (delivered cx6) =
        [(0, 0, ProgressEvent (snapshot (listed_root ''/a'')) (Some progress2)),
         (0, 1, ProgressEvent (snapshot (listed_root ''/b'')) (Some progress2))]"
  using cx3_reachable cx_step4 cx4_cx6
  by (simp add: cx3_def cx4_def cx6_def scan_aborted_def scan_obj_def after_listing_def)



section \<open>The incremental walk stops at the depth limit\<close>

lemma fillNode_truncated:
  "maxDepth \<le> depth \<Longrightarrow>
   fillNode fs maxDepth depth node pr =
     (set_size (snd (fastDirSize fs (path node) False False)) (set_truncated node),
      pr\<lparr>dirsCompleted := dirsCompleted pr + 1\<rparr>,
      [fst (fastDirSize fs (path node) False False)])"
  by (subst fillNode.simps) (simp add: Let_def)

lemma fillNode_unreadable:
  "depth < maxDepth \<Longrightarrow> readdir fs (path node) = None \<Longrightarrow>
   fillNode fs maxDepth depth node pr =
     (node, pr\<lparr>dirsCompleted := dirsCompleted pr + 1\<rparr>,
      [[AcquireSlot, Syscall Readdir (path node), ReleaseSlot]])"
  by (subst fillNode.simps) (simp add: withSlot_def readdir_call_def)

lemma fillNode_listed:
  assumes "depth < maxDepth" "readdir fs (path node) = Some entries"
  shows "fillNode fs maxDepth depth node pr =
     (let dirs = foldl (fill_subdir fs maxDepth depth (path node))
                   ([], pr\<lparr>dirsFound := dirsFound pr + length (filter is_subdir entries)\<rparr>, [])
                   (filter is_subdir entries);
          files = map (stat_file fs (path node)) (filter is_plain_file entries)
      in (set_children (fst dirs @ concat (map fst files)) node,
          (fst (snd dirs))\<lparr>dirsCompleted := dirsCompleted (fst (snd dirs)) + 1\<rparr>,
          [AcquireSlot, Syscall Readdir (path node), ReleaseSlot] # snd (snd dirs) @ map snd files))"
proof -
  have cb1: "(\<lambda>acc entry.
               let child = dir_node (d_name entry) (join (path node) (d_name entry));
                   r = fillNode fs maxDepth (depth + 1) child (fst (snd acc))
               in (fst acc @ [fst r], fst (snd r), snd (snd acc) @ snd (snd r)))
            = fill_subdir fs maxDepth depth (path node)"
    by (intro ext) (simp add: fill_subdir_def Let_def)
  have cb2: "(\<lambda>entry.
               let fullPath = join (path node) (d_name entry)
               in case withSlot (stat_call fs fullPath) of
                    (evs', Some sz) \<Rightarrow> ([file_node (d_name entry) fullPath sz], evs')
                  | (evs', None) \<Rightarrow> ([], evs'))
            = stat_file fs (path node)"
    by (intro ext) (simp add: stat_file_def Let_def withSlot_def stat_call_def split: option.splits)
  show ?thesis
    apply (subst fillNode.simps)
    unfolding cb1 cb2
    using assms by (simp add: Let_def withSlot_def readdir_call_def)
qed

lemma foldl_fill_subdir_kids:
  assumes "\<And>e pr. e \<in> set es \<Longrightarrow>
             P (fst (fillNode fs maxDepth (depth + 1) (dir_node (d_name e) (join p (d_name e))) pr))"
    and "\<forall>k\<in>set (fst acc). P k"
  shows "\<forall>k\<in>set (fst (foldl (fill_subdir fs maxDepth depth p) acc es)). P k"
  using assms
proof (induction es arbitrary: acc)
  case Nil
  then show ?case by simp
next
  case (Cons e es)
  have "\<forall>k\<in>set (fst (fill_subdir fs maxDepth depth p acc e)). P k"
    using Cons(2)[of e] Cons(3) by (auto simp: fill_subdir_def)
  then show ?case using Cons(1)[of "fill_subdir fs maxDepth depth p acc e"] Cons(2) by simp
qed

lemma foldl_fill_subdir_calls:
  assumes "\<And>e pr. e \<in> set es \<Longrightarrow>
             \<forall>c\<in>set (snd (snd (fillNode fs maxDepth (depth + 1)
                      (dir_node (d_name e) (join p (d_name e))) pr))). Q c"
    and "\<forall>c\<in>set (snd (snd acc)). Q c"
  shows "\<forall>c\<in>set (snd (snd (foldl (fill_subdir fs maxDepth depth p) acc es))). Q c"
  using assms
proof (induction es arbitrary: acc)
  case Nil
  then show ?case by simp
next
  case (Cons e es)
  have step: "\<forall>c\<in>set (snd (snd (fill_subdir fs maxDepth depth p acc e))). Q c"
    using Cons.prems(1)[of e] Cons.prems(2) by (auto simp: fill_subdir_def)
  have "\<forall>c\<in>set (snd (snd (foldl (fill_subdir fs maxDepth depth p)
                (fill_subdir fs maxDepth depth p acc e) es))). Q c"
  proof (rule Cons.IH)
    show "\<forall>c\<in>set (snd (snd (fillNode fs maxDepth (depth + 1)
              (dir_node (d_name e') (join p (d_name e'))) pr))). Q c" if "e' \<in> set es" for e' pr
      using Cons.prems(1)[of e' pr] that by simp
    show "\<forall>c\<in>set (snd (snd (fill_subdir fs maxDepth depth p acc e))). Q c" by (rule step)
  qed
  then show ?case by simp
qed

lemma stat_file_kids:
  "k \<in> set (concat (map fst (map (stat_file fs p) es))) \<Longrightarrow>
   \<exists>e\<in>set es. \<exists>sz. stat fs (join p (d_name e)) = Some sz
        \<and> k = file_node (d_name e) (join p (d_name e)) sz"
  by (auto simp: stat_file_def split: option.splits)

lemma nodes_at_set_children:
  "set (nodes_at d (set_children cs n)) =
     insert (d, set_children cs n) (\<Union>c\<in>set cs. set (nodes_at (Suc d) c))"
  by (rule nodes_at_children) simp

lemma nodes_set_children:
  "set (nodes (set_children cs n)) = insert (set_children cs n) (\<Union>c\<in>set cs. set (nodes c))"
  by (rule nodes_children) simp

lemma fillNode_cut:
  assumes "depth \<le> maxDepth" "children node = None"
  shows "\<forall>dm\<in>set (nodes_at depth (fst (fillNode fs maxDepth depth node pr))). cut_ok fs maxDepth dm"
  using assms
proof (induction k \<equiv> "maxDepth - depth" arbitrary: depth node pr)
  case 0
  then have "depth = maxDepth" by simp
  then show ?case using 0
    by (simp add: fillNode_truncated nodes_at_leaf cut_ok_def estimate_def)
next
  case (Suc k)
  then have lt: "depth < maxDepth" by simp
  show ?case
  proof (cases "readdir fs (path node)")
    case None
    then show ?thesis using lt Suc.prems
      by (simp add: fillNode_unreadable nodes_at_leaf cut_ok_def)
  next
    case (Some entries)
    let ?P = "\<lambda>k. \<forall>dm\<in>set (nodes_at (Suc depth) k). cut_ok fs maxDepth dm"
    let ?pr1 = "pr\<lparr>dirsFound := dirsFound pr + length (filter is_subdir entries)\<rparr>"
    let ?dirs = "foldl (fill_subdir fs maxDepth depth (path node)) ([], ?pr1, [])
                   (filter is_subdir entries)"
    let ?files = "map (stat_file fs (path node)) (filter is_plain_file entries)"
    let ?kids = "fst ?dirs @ concat (map fst ?files)"
    have res: "fst (fillNode fs maxDepth depth node pr) = set_children ?kids node"
      using lt Some by (simp add: fillNode_listed Let_def)
    have ih: "?P (fst (fillNode fs maxDepth (depth + 1)
                (dir_node (d_name e) (join (path node) (d_name e))) pr'))" for e pr'
      using Suc.hyps(1)[of "depth + 1" "dir_node (d_name e) (join (path node) (d_name e))" pr']
        Suc.hyps(2) lt
      by simp
    have "\<forall>k\<in>set (fst ?dirs). ?P k"
      by (rule foldl_fill_subdir_kids) (use ih in auto)
    moreover have "?P k" if "k \<in> set (concat (map fst ?files))" for k
    proof -
      from stat_file_kids[OF that] have "children k = None" "type k = File" by auto
      then show ?thesis using lt by (simp add: nodes_at_leaf cut_ok_def)
    qed
    ultimately have "\<forall>k\<in>set ?kids. ?P k" by auto
    moreover have "cut_ok fs maxDepth (depth, set_children ?kids node)"
      using lt by (simp add: cut_ok_def)
    ultimately show ?thesis
      unfolding res nodes_at_set_children by blast
  qed
qed

lemma cuts_inv_nth:
  "cuts_inv fs m d cs fills \<Longrightarrow> j < length fills \<Longrightarrow>
   j < length cs \<and> cut_inv fs m d (cs ! j) (fills ! j)"
proof (induction fills arbitrary: cs j)
  case Nil
  then show ?case by simp
next
  case (Cons f fs')
  then show ?case by (cases cs; cases j) auto
qed

lemma cuts_inv_update:
  "cuts_inv fs m d cs fills \<Longrightarrow> j < length fills \<Longrightarrow> cut_inv fs m d c' f' \<Longrightarrow>
   cuts_inv fs m d (cs[j := c']) (fills[j := f'])"
proof (induction fills arbitrary: cs j)
  case Nil
  then show ?case by simp
next
  case (Cons f fs')
  then show ?case by (cases cs; cases j) auto
qed

lemma cuts_inv_append:
  "cuts_inv fs m d cs fills \<Longrightarrow> \<forall>dm\<in>set (nodes_at d x). cut_ok fs m dm \<Longrightarrow>
   cuts_inv fs m d (cs @ [x]) fills"
proof (induction fills arbitrary: cs)
  case Nil
  then show ?case by auto
next
  case (Cons f fs')
  then show ?case by (cases cs) auto
qed

lemma cuts_inv_map:
  "(\<forall>e\<in>set es. cut_inv fs m d (fst (b e)) (snd (b e))) \<Longrightarrow>
   cuts_inv fs m d (map (\<lambda>e. fst (b e)) es) (map (\<lambda>e. snd (b e)) es)"
  by (induction es) auto

lemma cuts_inv_done:
  "cuts_inv fs m d cs fills \<Longrightarrow> \<forall>f\<in>set fills. f = Returned \<Longrightarrow>
   \<forall>c\<in>set cs. \<forall>dm\<in>set (nodes_at d c). cut_ok fs m dm"
proof (induction fills arbitrary: cs)
  case Nil
  then show ?case by simp
next
  case (Cons f fs')
  then show ?case by (cases cs) auto
qed

lemma begin_child_cut:
  "d < m \<Longrightarrow> cut_inv fs m (Suc d) (fst (begin_child m d p e)) (snd (begin_child m d p e))"
  by (auto simp: begin_child_def fill_begin_def)

lemma fill_step_cut:
  assumes "fill_step fs maxDepth depth (g, n, f) (g', n', f')"
    and "\<not> aborted g" and "cut_inv fs maxDepth depth n f"
  shows "cut_inv fs maxDepth depth n' f'"
  using assms
proof (induction depth "(g, n, f)" "(g', n', f')" arbitrary: g n f g' n' f' rule: fill_step.induct)
  case (du_settled depth g node)
  then show ?case by (simp add: nodes_at_leaf cut_ok_def estimate_def)
next
  case (readdir_failed node depth g)
  then show ?case by (simp add: nodes_at_leaf cut_ok_def)
next
  case (readdir_aborted node entries g depth)
  then show ?case by simp
next
  case (readdir_ok node entries g subdirs g' depth)
  then have lt: "depth < maxDepth" by simp
  have "cuts_inv fs maxDepth (Suc depth)
          (map (\<lambda>e. fst (begin_child maxDepth depth (path node) e)) subdirs)
          (map (\<lambda>e. snd (begin_child maxDepth depth (path node) e)) subdirs)"
    by (intro cuts_inv_map) (simp add: begin_child_cut[OF lt])
  then show ?case using lt by simp
next
  case (stat_ok entry stats node sz cs depth g fills)
  let ?file = "file_node (d_name entry) (join (path node) (d_name entry)) sz"
  from stat_ok have lt: "depth < maxDepth" and ci: "cuts_inv fs maxDepth (Suc depth) cs fills"
    by simp_all
  have "\<forall>dm\<in>set (nodes_at (Suc depth) ?file). cut_ok fs maxDepth dm"
    using lt by (simp add: nodes_at_leaf cut_ok_def)
  from cuts_inv_append[OF ci this] show ?case using lt by simp
next
  case (stat_failed entry stats node depth g fills)
  then show ?case by simp
next
  case (child_step j fills node cs depth g g' c' f' stats)
  from child_step have lt: "depth < maxDepth" and ci: "cuts_inv fs maxDepth (Suc depth) cs fills"
    by simp_all
  have "cut_inv fs maxDepth (Suc depth) (cs ! j) (fills ! j)"
    using cuts_inv_nth[OF ci child_step(1)] by simp
  then have "cut_inv fs maxDepth (Suc depth) c' f'"
    using child_step(5) child_step.prems(1) by simp
  from cuts_inv_update[OF ci child_step(1) this] show ?case using lt by simp
next
  case (all_settled fills stats depth g node)
  then obtain cs where cs: "children node = Some cs" "cuts_inv fs maxDepth (Suc depth) cs fills"
    and lt: "depth < maxDepth"
    by (auto split: option.splits)
  have "\<forall>c\<in>set cs. \<forall>dm\<in>set (nodes_at (Suc depth) c). cut_ok fs maxDepth dm"
    using cuts_inv_done[OF cs(2)] all_settled(1) by simp
  moreover have "cut_ok fs maxDepth (depth, node)" using lt by (simp add: cut_ok_def)
  ultimately show ?case
    unfolding cut_inv.simps nodes_at_children[OF cs(1)] by auto
qed

lemma scan_cut_init: "scan_cut fs maxDepth (scan_init dirPath maxDepth ab)"
  by (auto simp: scan_cut_def scan_init_def fill_begin_def Let_def)

lemma scan_cut_step:
  assumes "scan_step fs maxDepth s l s'" "scan_cut fs maxDepth s"
  shows "scan_cut fs maxDepth s'"
  using assms
proof (induction rule: scan_step.induct)
  case (walker s g' r' f')
  from fill_step_counts[OF walker(1)] have "aborted g' = aborted (sh s)" by simp
  then show ?case using fill_step_cut[OF walker(1)] walker(2)
    by (auto simp: scan_cut_def)
next
  case (timer s l s')
  then show ?case by (auto simp: scan_cut_def tick_def split: if_splits)
next
  case (completion s l s')
  then show ?case by (auto simp: scan_cut_def finish_def split: if_splits)
next
  case (signal s)
  then show ?case by (auto simp: scan_cut_def)
qed

lemma scan_cut_reachable:
  "scan_reachable fs maxDepth dirPath s \<Longrightarrow> scan_cut fs maxDepth s"
  by (induction rule: scan_reachable.induct) (auto intro: scan_cut_init scan_cut_step)

lemma estimate_failure:
  "du_out fs p = None \<or>
   (\<exists>text. du_out fs p = Some text \<and> parseInt (takeWhile (\<lambda>c. c \<noteq> CHR 0x09) text) = None)
   \<Longrightarrow> estimate fs p = 0"
  by (auto simp: estimate_def fastDirSize_def)

text \<open>
  Claim C5: a directory the incremental walk reaches at depth \<open>maxDepth\<close>, without
  cancellation, ends up with \<open>truncated = true\<close>, without children and with the size
  \<open>fastDirSize\<close> returns for its path, which is 0 when \<open>du\<close> fails or is killed by the
  timeout (no output) and when its output does not parse. This holds of the working tree
  of every uncancelled scan whose walk has returned, whatever the order in which the
  calls completed, and of the tree \<open>fillNode\<close> computes; no node lies below \<open>maxDepth\<close>.
\<close>

theorem truncated_at_max_depth:
  "(scan_reachable fs maxDepth dirPath s \<and> walk s = Returned \<and> \<not> aborted (sh s) \<longrightarrow>
      (\<forall>(d, m)\<in>set (nodes_at 0 (root s)).
         d \<le> maxDepth
         \<and> (d = maxDepth \<and> type m = Directory \<longrightarrow>
              truncated m = Some True \<and> children m = None
              \<and> size_n m = snd (fastDirSize fs (path m) False False))))
   \<and> (\<forall>(d, m)\<in>set (nodes_at 0 (fst (fillNode fs maxDepth 0 (dir_node (dir_name dirPath) dirPath) pr))).
         d \<le> maxDepth
         \<and> (d = maxDepth \<and> type m = Directory \<longrightarrow>
              truncated m = Some True \<and> children m = None
              \<and> size_n m = snd (fastDirSize fs (path m) False False)))
   \<and> (du_out fs p = None \<longrightarrow> snd (fastDirSize fs p False False) = 0)
   \<and> (du_out fs p = Some text \<and> parseInt (takeWhile (\<lambda>c. c \<noteq> CHR 0x09) text) = None \<longrightarrow>
        snd (fastDirSize fs p False False) = 0)"
proof (intro conjI impI)
  assume a: "scan_reachable fs maxDepth dirPath s \<and> walk s = Returned \<and> \<not> aborted (sh s)"
  then have "scan_cut fs maxDepth s" using scan_cut_reachable by blast
  then have "\<forall>dm\<in>set (nodes_at 0 (root s)). cut_ok fs maxDepth dm"
    using a by (simp add: scan_cut_def)
  then show "\<forall>(d, m)\<in>set (nodes_at 0 (root s)).
         d \<le> maxDepth
         \<and> (d = maxDepth \<and> type m = Directory \<longrightarrow>
              truncated m = Some True \<and> children m = None
              \<and> size_n m = snd (fastDirSize fs (path m) False False))"
    by (auto simp: cut_ok_def estimate_def)
next
  have "\<forall>dm\<in>set (nodes_at 0 (fst (fillNode fs maxDepth 0 (dir_node (dir_name dirPath) dirPath) pr))).
      cut_ok fs maxDepth dm"
    by (rule fillNode_cut) simp_all
  then show "\<forall>(d, m)\<in>set (nodes_at 0 (fst (fillNode fs maxDepth 0 (dir_node (dir_name dirPath) dirPath) pr))).
         d \<le> maxDepth
         \<and> (d = maxDepth \<and> type m = Directory \<longrightarrow>
              truncated m = Some True \<and> children m = None
              \<and> size_n m = snd (fastDirSize fs (path m) False False))"
    by (auto simp: cut_ok_def estimate_def)
next
  assume "du_out fs p = None"
  then show "snd (fastDirSize fs p False False) = 0"
    using estimate_failure[of fs p] by (simp add: estimate_def)
next
  assume "du_out fs p = Some text \<and> parseInt (takeWhile (\<lambda>c. c \<noteq> CHR 0x09) text) = None"
  then show "snd (fastDirSize fs p False False) = 0"
    using estimate_failure[of fs p] by (simp add: estimate_def)
qed

lemma parse_12: "parseInt ''12'' = Some 12"
  by (simp add: parseInt_def is_space_def is_digit_def digits_value_def Let_def)

lemma estimate_sized: "snd (fastDirSize fs_sized p False False) = 12288"
  by (simp add: fastDirSize_def fs_sized_def parse_12)

lemma sized_paths: "dir_name ''/a'' = ''a''" "join ''/a'' ''d'' = ''/a/d''"
  by (simp_all add: dir_name_def basename_def join_def)

lemma cut_done_reachable: "scan_reachable fs_sized 1 ''/a'' cut_done"
proof -
  let ?g0 = "\<lparr>progress = \<lparr>dirsFound = 1, dirsCompleted = 0\<rparr>, dirty = False, aborted = False\<rparr>"
  let ?g1 = "\<lparr>progress = \<lparr>dirsFound = 2, dirsCompleted = 0\<rparr>, dirty = True, aborted = False\<rparr>"
  let ?g2 = "\<lparr>progress = \<lparr>dirsFound = 2, dirsCompleted = 1\<rparr>, dirty = True, aborted = False\<rparr>"
  let ?g3 = "\<lparr>progress = \<lparr>dirsFound = 2, dirsCompleted = 2\<rparr>, dirty = True, aborted = False\<rparr>"
  let ?r0 = "TreeNode ''a'' ''/a'' 0 Directory None None None"
  let ?k0 = "TreeNode ''d'' ''/a/d'' 0 Directory None None (Some True)"
  let ?r1 = "TreeNode ''a'' ''/a'' 0 Directory None (Some [?k0]) None"
  let ?st = "\<lambda>g r f. \<lparr>sh = g, root = r, walk = f, finished = False\<rparr>"
  have init: "scan_init ''/a'' 1 False = ?st ?g0 ?r0 AwaitReaddir"
    by (simp add: scan_init_def fill_begin_def sized_paths dir_node_def)
  have s0: "scan_reachable fs_sized 1 ''/a'' (?st ?g0 ?r0 AwaitReaddir)"
    using scan_reachable.start[of fs_sized 1 "''/a''" False] unfolding init .
  have rd: "readdir fs_sized (path ?r0) = Some [\<lparr>d_name = ''d'', d_type = DDirectory\<rparr>]"
    by (simp add: fs_sized_def)
  have na: "\<not> aborted ?g0" by simp
  have f1: "fill_step fs_sized 1 0 (?g0, ?r0, AwaitReaddir) (?g1, ?r1, AwaitAll [AwaitDu] [])"
    using fill_step.readdir_ok[OF rd na refl refl, of 1 0]
    by (simp add: is_subdir_def is_plain_file_def isSymbolicLink_def isDirectory_def isFile_def
        begin_child_def fill_begin_def add_found_def markDirty_def numeral_2_eq_2 sized_paths
        dir_node_def set_children_def set_truncated_def)
  have f2c: "fill_step fs_sized 1 (0 + 1) (?g1, [?k0] ! 0, [AwaitDu] ! 0) (?g2, cut_leaf, Returned)"
    using fill_step.du_settled[of fs_sized 1 1 ?g1 ?k0]
    by (simp add: estimate_sized markDirty_def inc_completed_def set_size_def cut_leaf_def)
  have f2: "fill_step fs_sized 1 0 (?g1, ?r1, AwaitAll [AwaitDu] []) (?g2, cut_root, AwaitAll [Returned] [])"
    using fill_step.child_step[OF _ _ _ f2c, of ?r1 "[]"]
    by (simp add: set_children_def cut_root_def)
  have f3: "fill_step fs_sized 1 0 (?g2, cut_root, AwaitAll [Returned] []) (?g3, cut_root, Returned)"
    using fill_step.all_settled[of "[Returned]" "[]" fs_sized 1 0 ?g2 cut_root]
    by (simp add: markDirty_def inc_completed_def numeral_2_eq_2)
  have w: "scan_reachable fs_sized 1 ''/a'' (?st g' r' f')"
    if "scan_reachable fs_sized 1 ''/a'' (?st g r f)" "fill_step fs_sized 1 0 (g, r, f) (g', r', f')"
    for g r f g' r' f'
  proof -
    have "scan_step fs_sized 1 (?st g r f) Internal (?st g' r' f')"
      using scan_step.walker[of fs_sized 1 "?st g r f" g' r' f'] that(2) by simp
    with that(1) show ?thesis by (rule scan_reachable.step)
  qed
  from w[OF w[OF w[OF s0 f1] f2] f3] show ?thesis by (simp add: cut_done_def)
qed

lemma cut_bigstep:
  "fst (fillNode fs_sized 1 0 (dir_node (dir_name ''/a'') ''/a'') pr) = cut_root"
proof -
  have rd: "readdir fs_sized (path (dir_node (dir_name ''/a'') ''/a'')) =
      Some [\<lparr>d_name = ''d'', d_type = DDirectory\<rparr>]"
    by (simp add: fs_sized_def)
  have leaf: "fst (fillNode fs_sized 1 (0 + 1) (dir_node ''d'' ''/a/d'') pr') = cut_leaf" for pr'
    using fillNode_truncated[of 1 "0 + 1" fs_sized "dir_node ''d'' ''/a/d''" pr']
    by (simp add: estimate_sized cut_leaf_def dir_node_def set_size_def set_truncated_def)
  have "fst (fillNode fs_sized 1 0 (dir_node (dir_name ''/a'') ''/a'') pr) =
      set_children [cut_leaf] (dir_node (dir_name ''/a'') ''/a'')"
    unfolding fillNode_listed[OF zero_less_one rd] Let_def
    by (simp add: is_subdir_def is_plain_file_def isSymbolicLink_def isDirectory_def isFile_def
        fill_subdir_def sized_paths leaf[simplified])
  then show ?thesis
    by (simp add: cut_root_def dir_node_def set_children_def sized_paths)
qed

text \<open>
  With \<open>maxDepth = 1\<close> the directory \<open>/a/d\<close> is truncated with the size 12 * 1024;
  without output of \<open>du\<close>, and with the output \<open>?\<close>, the size is 0.
\<close>

theorem truncated_at_max_depth_witness:
  "scan_reachable fs_sized 1 ''/a'' cut_done \<and> walk cut_done = Returned \<and> \<not> aborted (sh cut_done)
   \<and> (1, cut_leaf) \<in> set (nodes_at 0 (root cut_done))
   \<and> (1, cut_leaf) \<in> set (nodes_at 0 (fst (fillNode fs_sized 1 0 (dir_node (dir_name ''/a'') ''/a'')
                                            \<lparr>dirsFound = 1, dirsCompleted = 0\<rparr>)))
   \<and> type cut_leaf = Directory \<and> truncated cut_leaf = Some True \<and> children cut_leaf = None
   \<and> size_n cut_leaf = snd (fastDirSize fs_sized (path cut_leaf) False False)
   \<and> size_n cut_leaf = 12 * 1024
   \<and> du_out fs_chain ''/a/d'' = None \<and> snd (fastDirSize fs_chain ''/a/d'' False False) = 0
   \<and> du_out (fs_chain\<lparr>du_out := \<lambda>p. Some ''?''\<rparr>) ''/a/d'' = Some ''?''
   \<and> parseInt (takeWhile (\<lambda>c. c \<noteq> CHR 0x09) ''?'') = None
   \<and> snd (fastDirSize (fs_chain\<lparr>du_out := \<lambda>p. Some ''?''\<rparr>) ''/a/d'' False False) = 0"
proof -
  have mem: "(1, cut_leaf) \<in> set (nodes_at 0 (root cut_done))"
    by (simp add: cut_done_def cut_root_def cut_leaf_def)
  have st: "walk cut_done = Returned" "\<not> aborted (sh cut_done)" "type cut_leaf = Directory"
    by (simp_all add: cut_done_def cut_leaf_def)
  have du1: "du_out fs_chain ''/a/d'' = None" by (simp add: fs_chain_def)
  have du2: "du_out (fs_chain\<lparr>du_out := \<lambda>p. Some ''?''\<rparr>) ''/a/d'' = Some ''?''" by simp
  have pi: "parseInt (takeWhile (\<lambda>c. c \<noteq> CHR 0x09) ''?'') = None"
    by (simp add: parseInt_def is_space_def is_digit_def Let_def)
  have mem2: "(1, cut_leaf) \<in> set (nodes_at 0 (fst (fillNode fs_sized 1 0
      (dir_node (dir_name ''/a'') ''/a'') \<lparr>dirsFound = 1, dirsCompleted = 0\<rparr>)))"
    unfolding cut_bigstep by (simp add: cut_root_def cut_leaf_def)
  from truncated_at_max_depth[of fs_sized 1 "''/a''" cut_done
      "\<lparr>dirsFound = 1, dirsCompleted = 0\<rparr>" "''/a/d''" "''?''"]
    cut_done_reachable st mem
  have a: "truncated cut_leaf = Some True \<and> children cut_leaf = None
      \<and> size_n cut_leaf = snd (fastDirSize fs_sized (path cut_leaf) False False)"
    by auto
  from truncated_at_max_depth[of fs_chain 1 "''/a''" cut_done
      "\<lparr>dirsFound = 1, dirsCompleted = 0\<rparr>" "''/a/d''" "''?''"] du1
  have b: "snd (fastDirSize fs_chain ''/a/d'' False False) = 0" by simp
  from truncated_at_max_depth[of "fs_chain\<lparr>du_out := \<lambda>p. Some ''?''\<rparr>" 1 "''/a''" cut_done
      "\<lparr>dirsFound = 1, dirsCompleted = 0\<rparr>" "''/a/d''" "''?''"] du2 pi
  have c: "snd (fastDirSize (fs_chain\<lparr>du_out := \<lambda>p. Some ''?''\<rparr>) ''/a/d'' False False) = 0"
    by simp
  have "size_n cut_leaf = 12 * 1024" by (simp add: cut_leaf_def)
  then show ?thesis using cut_done_reachable st mem mem2 a b c du1 du2 pi by simp
qed


section \<open>Sizes beyond \<open>2^53\<close>\<close>

lemma pair_paths:
  "join ''/h'' ''a'' = ''/h/a''" "join ''/h'' ''b'' = ''/h/b''" "dir_name ''/h'' = ''h''"
  "extension_of ''a'' = None" "extension_of ''b'' = None"
  by (simp_all add: join_def dir_name_def basename_def extension_of_def extname_def toLowerCase_def)

lemma pair_walk:
  assumes "scan_reachable fs_pair 8 ''/h'' (pair_state g r f)"
    and "fill_step fs_pair 8 0 (g, r, f) (g', r', f')"
  shows "scan_reachable fs_pair 8 ''/h'' (pair_state g' r' f')"
proof -
  have "scan_step fs_pair 8 (pair_state g r f) Internal (pair_state g' r' f')"
    using scan_step.walker[of fs_pair 8 "pair_state g r f" g' r' f'] assms(2)
    by (simp add: pair_state_def)
  then show ?thesis using assms(1) scan_reachable.step by blast
qed

lemma pair_reachable: "scan_reachable fs_pair 8 ''/h'' pair_done"
proof -
  let ?g0 = "\<lparr>progress = \<lparr>dirsFound = 1, dirsCompleted = 0\<rparr>, dirty = False, aborted = False\<rparr>"
  let ?g1 = "\<lparr>progress = \<lparr>dirsFound = 1, dirsCompleted = 0\<rparr>, dirty = True, aborted = False\<rparr>"
  let ?g2 = "\<lparr>progress = \<lparr>dirsFound = 1, dirsCompleted = 1\<rparr>, dirty = True, aborted = False\<rparr>"
  let ?r0 = "TreeNode ''h'' ''/h'' 0 Directory None None None"
  let ?mk = "\<lambda>cs. TreeNode ''h'' ''/h'' 0 Directory None (Some cs) None"
  let ?a = "\<lparr>d_name = ''a'', d_type = DFile\<rparr>"
  let ?b = "\<lparr>d_name = ''b'', d_type = DFile\<rparr>"
  have init: "scan_init ''/h'' 8 False = pair_state ?g0 ?r0 AwaitReaddir"
    by (simp add: scan_init_def fill_begin_def pair_paths dir_node_def pair_state_def)
  have s0: "scan_reachable fs_pair 8 ''/h'' (pair_state ?g0 ?r0 AwaitReaddir)"
    using scan_reachable.start[of fs_pair 8 "''/h''" False] unfolding init .
  have rd: "readdir fs_pair (path ?r0) = Some [?a, ?b]" by (simp add: fs_pair_def)
  have na: "\<not> aborted ?g0" by simp
  have f1: "fill_step fs_pair 8 0 (?g0, ?r0, AwaitReaddir) (?g0, ?mk [], AwaitAll [] [?a, ?b])"
    using fill_step.readdir_ok[OF rd na refl refl, of 8 0]
    by (simp add: is_subdir_def is_plain_file_def isSymbolicLink_def isDirectory_def isFile_def
        add_found_def set_children_def)
  have sa: "stat fs_pair (join (path (?mk [])) (d_name ?a)) = Some 9007199254740992"
    by (simp add: pair_paths fs_pair_def)
  have f2: "fill_step fs_pair 8 0 (?g0, ?mk [], AwaitAll [] [?a, ?b]) (?g1, ?mk [pair_a], AwaitAll [] [?b])"
    using fill_step.stat_ok[OF _ sa, of "[?a, ?b]" "[]" 8 0 ?g0 "[]"]
    by (simp add: pair_paths set_children_def file_node_def markDirty_def pair_a_def)
  have sb: "stat fs_pair (join (path (?mk [pair_a])) (d_name ?b)) = Some 1"
    by (simp add: pair_paths fs_pair_def)
  have f3: "fill_step fs_pair 8 0 (?g1, ?mk [pair_a], AwaitAll [] [?b])
      (?g1, pair_tree, AwaitAll [] [])"
    using fill_step.stat_ok[OF _ sb, of "[?b]" "[pair_a]" 8 0 ?g1 "[]"]
    by (simp add: pair_paths set_children_def file_node_def markDirty_def pair_b_def pair_tree_def)
  have f4: "fill_step fs_pair 8 0 (?g1, pair_tree, AwaitAll [] []) (?g2, pair_tree, Returned)"
    using fill_step.all_settled[of "[]" "[]" fs_pair 8 0 ?g1 pair_tree]
    by (simp add: markDirty_def inc_completed_def)
  note pair_walk[OF s0 f1]
  note pair_walk[OF this f2]
  note pair_walk[OF this f3]
  note pair_walk[OF this f4]
  then show ?thesis by (simp add: pair_state_def pair_done_def)
qed

lemma pair_finish:
  "scan_step fs_pair 8 pair_done (Resolve (snapshot pair_tree)) (pair_done\<lparr>finished := True\<rparr>)"
  using scan_step.completion[of pair_done "Resolve (snapshot pair_tree)"
      "pair_done\<lparr>finished := True\<rparr>" fs_pair 8]
  by (simp add: pair_done_def finish_def)

lemma pair_snapshot:
  "snapshot pair_tree =
     TreeNode ''h'' ''/h'' 9007199254740992 Directory None (Some [pair_a, pair_b]) None"
proof -
  have srt: "sort_desc [pair_a, pair_b] = [pair_a, pair_b]"
    by (simp add: sort_desc_def pair_a_def pair_b_def)
  have leaf: "recalcSizes pair_a = pair_a" "recalcSizes pair_b = pair_b"
    "applyChildLimits pair_a d = pair_a" "applyChildLimits pair_b d = pair_b" for d
    by (simp_all add: recalcSizes_leaf applyChildLimits_leaf pair_a_def pair_b_def)
  have sum: "sum_sizes [pair_a, pair_b] = 9007199254740992"
    using js_add_tie by (simp add: sum_sizes_def js_add_exact pair_a_def pair_b_def)
  have r1: "recalcSizes pair_tree =
      TreeNode ''h'' ''/h'' 9007199254740992 Directory None (Some [pair_a, pair_b]) None"
    by (simp add: pair_tree_def recalcSizes.simps Let_def leaf srt sum)
  have r2: "applyChildLimits
      (TreeNode ''h'' ''/h'' 9007199254740992 Directory None (Some [pair_a, pair_b]) None) 0 =
      TreeNode ''h'' ''/h'' 9007199254740992 Directory None (Some [pair_a, pair_b]) None"
    by (simp add: applyChildLimits.simps Let_def leaf CHILD_LIMIT_DEPTH_def)
  have r3: "recalcSizes
      (TreeNode ''h'' ''/h'' 9007199254740992 Directory None (Some [pair_a, pair_b]) None) =
      TreeNode ''h'' ''/h'' 9007199254740992 Directory None (Some [pair_a, pair_b]) None"
    by (simp add: recalcSizes.simps Let_def leaf srt sum)
  show ?thesis by (simp add: snapshot_def clone_id r1 r2 r3)
qed

text \<open>
  Claim C1 as stated fails beyond \<open>2^53\<close>: the scan of \<open>/h\<close> returns a root of
  \<open>2^53\<close> bytes whose children have \<open>2^53\<close> bytes and 1 byte.
\<close>

theorem rounded_size_counterexample:
  "scan_reachable fs_pair 8 ''/h'' pair_done
   \<and> scan_step fs_pair 8 pair_done (Resolve (snapshot pair_tree)) (pair_done\<lparr>finished := True\<rparr>)
   \<and> published (Resolve (snapshot pair_tree)) = Some (snapshot pair_tree)
   \<and> snapshot pair_tree \<in> set (nodes (snapshot pair_tree))
   \<and> children (snapshot pair_tree) = Some [pair_a, pair_b]
   \<and> size_n pair_a = 9007199254740992 \<and> size_n pair_b = 1
   \<and> size_n (snapshot pair_tree) = 9007199254740992
   \<and> sum_list (map size_n [pair_a, pair_b]) = 9007199254740993
   \<and> size_n (snapshot pair_tree) \<noteq> sum_list (map size_n [pair_a, pair_b])"
  using pair_reachable pair_finish nodes_self[of "snapshot pair_tree"]
  by (simp add: pair_snapshot pair_a_def pair_b_def)

lemma show_nat_last: "last (show_nat n) = char_of (48 + n mod 10)"
  by (subst show_nat.simps) simp

lemma digit_not_z: "k < 10 \<Longrightarrow> (char_of (48 + k :: nat) :: char) \<noteq> CHR ''z''"
proof
  assume k: "k < 10" and "(char_of (48 + k) :: char) = CHR ''z''"
  then have "of_char (char_of (48 + k) :: char) = (of_char (CHR ''z'') :: nat)" by simp
  then have "(48 + k) mod 256 = (122 :: nat)" by simp
  then show False using k by simp
qed

lemma show_nat_not_z: "show_nat n \<noteq> ''z''"
proof
  assume "show_nat n = ''z''"
  then have "last (show_nat n) = CHR ''z''" by simp
  then have "(char_of (48 + n mod 10) :: char) = CHR ''z''" by (simp add: show_nat_last)
  then show False using digit_not_z[of "n mod 10"] by simp
qed

lemma huge_paths:
  "dir_name ''/r'' = ''r''" "join ''/r'' ''a'' = ''/r/a''" "join ''/r/a'' ''b'' = ''/r/a/b''"
  "join ''/r/a/b'' ''z'' = ''/r/a/b/z''"
  by (simp_all add: join_def dir_name_def basename_def)

lemma huge_stat:
  "stat fs_huge (join ''/r/a/b'' (show_nat i)) = Some 9007199254740992"
  "stat fs_huge ''/r/a/b/z'' = Some 1"
  using show_nat_not_z[of i] by (simp_all add: fs_huge_def join_def)

lemma huge_stat_file:
  "fst (stat_file fs_huge ''/r/a/b'' \<lparr>d_name = show_nat i, d_type = DFile\<rparr>)
     = [sized_file 9007199254740992 i]"
  "fst (stat_file fs_huge ''/r/a/b'' \<lparr>d_name = ''z'', d_type = DFile\<rparr>)
     = [file_node ''z'' ''/r/a/b/z'' 1]"
  by (simp_all add: stat_file_def huge_stat huge_paths(4) sized_file_def)

lemma huge_fill_b:
  "fst (fillNode fs_huge 8 2 (dir_node ''b'' ''/r/a/b'') pr) = huge_dir"
proof -
  let ?mk = "\<lambda>i. \<lparr>d_name = show_nat i, d_type = DFile\<rparr>"
  let ?z = "\<lparr>d_name = ''z'', d_type = DFile\<rparr>"
  have lt: "(2::nat) < 8" by simp
  have rd: "readdir fs_huge (path (dir_node ''b'' ''/r/a/b'')) = Some (map ?mk [0..<31] @ [?z])"
    by (simp add: fs_huge_def)
  have nd: "filter is_subdir (map ?mk xs @ [?z]) = []" for xs
    by (induction xs) (simp_all add: is_subdir_def isDirectory_def)
  have pf: "filter is_plain_file (map ?mk xs @ [?z]) = map ?mk xs @ [?z]" for xs
    by (induction xs)
       (simp_all add: is_plain_file_def isSymbolicLink_def isDirectory_def isFile_def)
  have st: "concat (map fst (map (stat_file fs_huge ''/r/a/b'') (map ?mk xs @ [?z])))
      = map (sized_file 9007199254740992) xs @ [file_node ''z'' ''/r/a/b/z'' 1]" for xs
    by (induction xs) (simp_all add: huge_stat_file)
  have p: "path (dir_node ''b'' ''/r/a/b'') = ''/r/a/b''" by simp
  have "fst (fillNode fs_huge 8 2 (dir_node ''b'' ''/r/a/b'') pr) =
      set_children (map (sized_file 9007199254740992) [0..<31] @ [file_node ''z'' ''/r/a/b/z'' 1])
        (dir_node ''b'' ''/r/a/b'')"
    unfolding fillNode_listed[OF lt rd] Let_def nd pf p st
    by (simp del: upt_rec_numeral)
  then show ?thesis
    by (simp add: huge_dir_def dir_node_def set_children_def del: upt_rec_numeral)
qed

lemma huge_fill_a:
  "fst (fillNode fs_huge 8 1 (dir_node ''a'' ''/r/a'') pr) = huge_mid"
proof -
  have lt: "(1::nat) < 8" by simp
  have rd: "readdir fs_huge (path (dir_node ''a'' ''/r/a'')) =
      Some [\<lparr>d_name = ''b'', d_type = DDirectory\<rparr>]"
    by (simp add: fs_huge_def)
  have b: "fst (fillNode fs_huge 8 (1 + 1) (dir_node ''b'' ''/r/a/b'') pr') = huge_dir" for pr'
    using huge_fill_b[of pr'] by (simp add: numeral_2_eq_2)
  have "fst (fillNode fs_huge 8 1 (dir_node ''a'' ''/r/a'') pr) =
      set_children [huge_dir] (dir_node ''a'' ''/r/a'')"
    unfolding fillNode_listed[OF lt rd] Let_def
    by (simp add: is_subdir_def is_plain_file_def isSymbolicLink_def isDirectory_def isFile_def
        fill_subdir_def huge_paths b[simplified])
  then show ?thesis by (simp add: huge_mid_def dir_node_def set_children_def)
qed

lemma huge_fill_r:
  "fst (fillNode fs_huge 8 0 (dir_node (dir_name ''/r'') ''/r'') pr) = huge_tree"
proof -
  have lt: "(0::nat) < 8" by simp
  have rd: "readdir fs_huge (path (dir_node (dir_name ''/r'') ''/r'')) =
      Some [\<lparr>d_name = ''a'', d_type = DDirectory\<rparr>]"
    by (simp add: fs_huge_def)
  have a: "fst (fillNode fs_huge 8 (0 + 1) (dir_node ''a'' ''/r/a'') pr') = huge_mid" for pr'
    using huge_fill_a[of pr'] by simp
  have "fst (fillNode fs_huge 8 0 (dir_node (dir_name ''/r'') ''/r'') pr) =
      set_children [huge_mid] (dir_node (dir_name ''/r'') ''/r'')"
    unfolding fillNode_listed[OF lt rd] Let_def
    by (simp add: is_subdir_def is_plain_file_def isSymbolicLink_def isDirectory_def isFile_def
        fill_subdir_def huge_paths a[simplified])
  then show ?thesis by (simp add: huge_tree_def dir_node_def set_children_def huge_paths)
qed

lemma huge_ranked:
  "ranked (map (sized_file 9007199254740992) xs @ [file_node ''z'' ''/r/a/b/z'' 1])
     = map (sized_file 9007199254740992) xs @ [file_node ''z'' ''/r/a/b/z'' 1]"
  unfolding ranked_def
  by (rule sort_key_sorted_id)
    (simp add: sorted_append sorted_map sorted_wrt_map recalcSizes_leaf)

lemma huge_folded:
  "take MAX_CHILDREN (ranked (map (sized_file 9007199254740992) [0..<31]
      @ [file_node ''z'' ''/r/a/b/z'' 1])) = map (sized_file 9007199254740992) [0..<30]"
  "folded_sizes (map (sized_file 9007199254740992) [0..<31] @ [file_node ''z'' ''/r/a/b/z'' 1])
     = [9007199254740992, 1]"
  unfolding folded_sizes_def huge_ranked upt_split_32(2)
  by (simp_all add: MAX_CHILDREN_def recalcSizes_leaf del: upt_rec_numeral)

lemma huge_total: "js_sum [9007199254740992, 1] = 9007199254740992"
  using js_add_tie by (simp add: js_sum_def js_add_exact)

lemma huge_sorted:
  "sort_desc (map (sized_file 9007199254740992) xs @ [other_node ''/r/a/b'' 2 9007199254740992])
     = map (sized_file 9007199254740992) xs @ [other_node ''/r/a/b'' 2 9007199254740992]"
  unfolding sort_desc_def
  by (rule sort_key_const[where k = "- 9007199254740992"]) (auto simp: other_node_def)

lemma huge_capped:
  "children (snapshot_from 2 huge_dir) =
     Some (map (sized_file 9007199254740992) [0..<30]
           @ [other_node ''/r/a/b'' 2 9007199254740992])"
proof -
  let ?cs = "map (sized_file 9007199254740992) [0..<31] @ [file_node ''z'' ''/r/a/b/z'' 1]"
  have ch: "children huge_dir = Some ?cs" by (simp add: huge_dir_def)
  have len: "MAX_CHILDREN < length ?cs" "length ?cs - MAX_CHILDREN = 2"
    by (simp_all add: MAX_CHILDREN_def)
  have d: "CHILD_LIMIT_DEPTH \<le> 2" by (simp add: CHILD_LIMIT_DEPTH_def)
  have fs: "folded_size ?cs = 9007199254740992"
    unfolding folded_size_def huge_folded huge_total ..
  show ?thesis
    unfolding snapshot_from_capped[OF ch d len(1)] huge_folded(1) len(2) fs
    by (simp add: huge_sorted comp_def huge_dir_def del: upt_rec_numeral)
qed

text \<open>
  Claim C2 as stated fails beyond \<open>2^53\<close>: in the tree the scan of \<open>/r\<close> returns, the
  directory \<open>/r/a/b\<close> at depth 2 folds a file of \<open>2^53\<close> bytes and a file of 1 byte into
  an aggregate of \<open>2^53\<close> bytes.
\<close>

theorem rounded_aggregate_counterexample:
  "fst (scanDirectoryStreaming fs_huge ''/r'' 8) = snapshot huge_tree
   \<and> (2, snapshot_from 2 huge_dir) \<in> set (nodes_at 0 (snapshot huge_tree))
   \<and> children huge_dir =
        Some (map (sized_file 9007199254740992) [0..<31] @ [file_node ''z'' ''/r/a/b/z'' 1])
   \<and> length (map (sized_file 9007199254740992) [0..<31] @ [file_node ''z'' ''/r/a/b/z'' 1]) = 32
   \<and> children (snapshot_from 2 huge_dir) =
        Some (map (sized_file 9007199254740992) [0..<30]
              @ [other_node ''/r/a/b'' 2 9007199254740992])
   \<and> folded_sizes (map (sized_file 9007199254740992) [0..<31] @ [file_node ''z'' ''/r/a/b/z'' 1])
        = [9007199254740992, 1]
   \<and> size_n (other_node ''/r/a/b'' 2 9007199254740992) = 9007199254740992
   \<and> sum_list [9007199254740992, 1 :: int] = 9007199254740993
   \<and> size_n (other_node ''/r/a/b'' 2 9007199254740992)
        \<noteq> sum_list (folded_sizes (map (sized_file 9007199254740992) [0..<31]
              @ [file_node ''z'' ''/r/a/b/z'' 1]))"
proof -
  have run: "fst (scanDirectoryStreaming fs_huge ''/r'' 8) = snapshot huge_tree"
    by (simp add: scanDirectoryStreaming_def Let_def huge_fill_r)
  have r: "children (snapshot_from 0 huge_tree) = Some [snapshot_from 1 huge_mid]"
    using snapshot_from_uncapped[of huge_tree "[huge_mid]" 0]
    by (simp add: huge_tree_def CHILD_LIMIT_DEPTH_def ranked_def sort_desc_def)
  have m: "children (snapshot_from 1 huge_mid) = Some [snapshot_from 2 huge_dir]"
    using snapshot_from_uncapped[of huge_mid "[huge_dir]" 1]
    by (simp add: huge_mid_def CHILD_LIMIT_DEPTH_def ranked_def sort_desc_def
        numeral_2_eq_2[symmetric])
  have "(2, snapshot_from 2 huge_dir) \<in> set (nodes_at (Suc (Suc 0)) (snapshot_from 2 huge_dir))"
    using nodes_at_self[of 2 "snapshot_from 2 huge_dir"] by (simp add: numeral_2_eq_2)
  then have "(2, snapshot_from 2 huge_dir) \<in> set (nodes_at (Suc 0) (snapshot_from 1 huge_mid))"
    unfolding nodes_at_children[OF m] by simp
  then have "(2, snapshot_from 2 huge_dir) \<in> set (nodes_at 0 (snapshot_from 0 huge_tree))"
    unfolding nodes_at_children[OF r] by simp
  then have mem: "(2, snapshot_from 2 huge_dir) \<in> set (nodes_at 0 (snapshot huge_tree))"
    by (simp add: snapshot_eq)
  have ch: "children huge_dir =
      Some (map (sized_file 9007199254740992) [0..<31] @ [file_node ''z'' ''/r/a/b/z'' 1])"
    by (simp add: huge_dir_def)
  have sz: "size_n (other_node ''/r/a/b'' 2 9007199254740992) = 9007199254740992"
    by (simp add: other_node_def)
  show ?thesis
    unfolding huge_folded(2)
    using run mem ch huge_capped sz by simp
qed


section \<open>Which calls run inside a limiter slot\<close>

lemma slot_scoped_bracket: "slot_scoped [AcquireSlot, Syscall k p, ReleaseSlot]"
  unfolding slot_scoped_def
proof (intro allI impI)
  fix i k' p'
  assume "i < length [AcquireSlot, Syscall k p, ReleaseSlot]"
    and "[AcquireSlot, Syscall k p, ReleaseSlot] ! i = Syscall k' p'"
  then have "i = 1" by (cases i; simp add: nth_Cons split: nat.splits)
  then show "AcquireSlot \<in> set (take i [AcquireSlot, Syscall k p, ReleaseSlot])
      \<and> ReleaseSlot \<in> set (drop (Suc i) [AcquireSlot, Syscall k p, ReleaseSlot])"
    by simp
qed

lemma slot_scoped_bare: "\<not> slot_scoped [Syscall k p]"
  by (auto simp: slot_scoped_def)

lemma call_shape_simps [simp]:
  "call_shape [AcquireSlot, Syscall Readdir p, ReleaseSlot]"
  "call_shape [AcquireSlot, Syscall Stat p, ReleaseSlot]"
  "call_shape [Syscall DuExec p]"
  by (simp_all add: call_shape_def)

lemma fastDirSize_call: "fst (fastDirSize fs p False b) = [Syscall DuExec p]"
  by (simp add: fastDirSize_def)

lemma scanDirectory_calls:
  "\<forall>call\<in>set (snd (scanDirectory fs dirPath maxDepth depth)). call_shape call"
proof (induction k \<equiv> "maxDepth - depth" arbitrary: depth dirPath)
  case 0
  then show ?case by (simp add: scanDirectory_truncated fastDirSize_call)
next
  case (Suc k)
  then have lt: "depth < maxDepth" by simp
  show ?case
  proof (cases "readdir fs dirPath")
    case None
    then show ?thesis using lt by (simp add: scanDirectory_unreadable)
  next
    case (Some entries)
    have "\<forall>call\<in>set (snd (scan_entry fs dirPath maxDepth depth e)). call_shape call" for e
      using Suc.hyps(1)[of "depth + 1" "join dirPath (d_name e)"] Suc.hyps(2)
      by (auto simp: scan_entry_def split: option.splits)
    then show ?thesis using lt Some
      by (auto simp: scanDirectory_listed)
  qed
qed

lemma fillNode_calls:
  "\<forall>call\<in>set (snd (snd (fillNode fs maxDepth depth node pr))). call_shape call"
proof (induction k \<equiv> "maxDepth - depth" arbitrary: depth node pr)
  case 0
  then show ?case by (simp add: fillNode_truncated fastDirSize_call)
next
  case (Suc k)
  then have lt: "depth < maxDepth" by simp
  show ?case
  proof (cases "readdir fs (path node)")
    case None
    then show ?thesis using lt by (simp add: fillNode_unreadable)
  next
    case (Some entries)
    let ?pr1 = "pr\<lparr>dirsFound := dirsFound pr + length (filter is_subdir entries)\<rparr>"
    have ih: "\<forall>c\<in>set (snd (snd (fillNode fs maxDepth (depth + 1)
                (dir_node (d_name e) (join (path node) (d_name e))) pr'))). call_shape c" for e pr'
      using Suc.hyps(1)[of "depth + 1"] Suc.hyps(2) by simp
    have "\<forall>c\<in>set (snd (snd (foldl (fill_subdir fs maxDepth depth (path node)) ([], ?pr1, [])
              (filter is_subdir entries)))). call_shape c"
      by (rule foldl_fill_subdir_calls) (use ih in auto)
    moreover have "call_shape (snd (stat_file fs (path node) e))" for e
      by (simp add: stat_file_def split: option.splits)
    ultimately show ?thesis using lt Some
      by (auto simp: fillNode_listed Let_def)
  qed
qed

text \<open>
  Claim C6, as the code has it. Every call of the one-shot walk, of \<open>fillNode\<close> and of
  the incremental walk that lists a directory or stats a file is \<open>withSlot\<close> around one
  system call: the slot is acquired before the system call and released after it, and
  \<open>withSlot\<close> produces the same events whether the wrapped call returns (\<open>Some\<close>) or
  throws (\<open>None\<close>). A call that estimates a size runs \<open>du\<close> and neither acquires nor
  releases a slot.
\<close>

theorem slot_discipline:
  "(\<forall>call\<in>set (snd (scanDirectory fs dirPath maxDepth depth))
            \<union> set (snd (snd (fillNode fs maxDepth depth node pr)))
            \<union> set (snd (snd (scanDirectoryStreaming fs dirPath maxDepth))).
      ((\<exists>p. Syscall Readdir p \<in> set call) \<or> (\<exists>p. Syscall Stat p \<in> set call) \<longrightarrow>
         slot_scoped call
         \<and> (\<exists>k p. call = fst (withSlot ([Syscall k p], None :: unit option))))
      \<and> ((\<exists>p. Syscall DuExec p \<in> set call) \<longrightarrow>
           AcquireSlot \<notin> set call \<and> ReleaseSlot \<notin> set call \<and> \<not> slot_scoped call))
   \<and> fst (withSlot (evs, None)) = AcquireSlot # evs @ [ReleaseSlot]
   \<and> fst (withSlot (evs, Some x)) = AcquireSlot # evs @ [ReleaseSlot]"
proof -
  have "call_shape call"
    if "call \<in> set (snd (scanDirectory fs dirPath maxDepth depth))
            \<union> set (snd (snd (fillNode fs maxDepth depth node pr)))
            \<union> set (snd (snd (scanDirectoryStreaming fs dirPath maxDepth)))" for call
    using that scanDirectory_calls fillNode_calls
    by (auto simp: scanDirectoryStreaming_def Let_def)
  moreover have "((\<exists>p. Syscall Readdir p \<in> set call) \<or> (\<exists>p. Syscall Stat p \<in> set call) \<longrightarrow>
         slot_scoped call
         \<and> (\<exists>k p. call = fst (withSlot ([Syscall k p], None :: unit option))))
      \<and> ((\<exists>p. Syscall DuExec p \<in> set call) \<longrightarrow>
           AcquireSlot \<notin> set call \<and> ReleaseSlot \<notin> set call \<and> \<not> slot_scoped call)"
    if "call_shape call" for call
    using that unfolding call_shape_def
    by (auto simp: slot_scoped_bracket slot_scoped_bare withSlot_def)
  ultimately show ?thesis by (simp add: withSlot_def)
qed

lemma small_oneshot_calls:
  "snd (scanDirectory fs_small ''/x'' 1 0) =
     [[AcquireSlot, Syscall Readdir ''/x'', ReleaseSlot],
      [AcquireSlot, Syscall Stat ''/x/a'', ReleaseSlot],
      [Syscall DuExec ''/x/b'']]"
proof -
  have rd: "readdir fs_small ''/x'' =
      Some [\<lparr>d_name = ''a'', d_type = DFile\<rparr>, \<lparr>d_name = ''b'', d_type = DDirectory\<rparr>,
            \<lparr>d_name = ''l'', d_type = DSymlink\<rparr>]"
    by (simp add: fs_small_def)
  have st: "stat fs_small ''/x/a'' = Some 10" by (simp add: fs_small_def)
  have leaf: "snd (scanDirectory fs_small ''/x/b'' 1 (0 + 1)) = [[Syscall DuExec ''/x/b'']]"
    by (simp add: scanDirectory_truncated fastDirSize_call)
  show ?thesis
    unfolding scanDirectory_listed[OF zero_less_one rd]
    using leaf
    by (simp add: scan_entry_def isSymbolicLink_def isDirectory_def isFile_def small_paths st)
qed

lemma small_streaming_calls:
  "snd (snd (scanDirectoryStreaming fs_small ''/x'' 1)) =
     [[AcquireSlot, Syscall Readdir ''/x'', ReleaseSlot],
      [Syscall DuExec ''/x/b''],
      [AcquireSlot, Syscall Stat ''/x/a'', ReleaseSlot]]"
proof -
  have rd: "readdir fs_small (path (dir_node (dir_name ''/x'') ''/x'')) =
      Some [\<lparr>d_name = ''a'', d_type = DFile\<rparr>, \<lparr>d_name = ''b'', d_type = DDirectory\<rparr>,
            \<lparr>d_name = ''l'', d_type = DSymlink\<rparr>]"
    by (simp add: fs_small_def)
  have st: "stat fs_small ''/x/a'' = Some 10" by (simp add: fs_small_def)
  have leaf: "snd (snd (fillNode fs_small 1 (0 + 1) (dir_node ''b'' ''/x/b'') pr')) =
      [[Syscall DuExec ''/x/b'']]" for pr'
    by (simp add: fillNode_truncated fastDirSize_call)
  show ?thesis
    unfolding scanDirectoryStreaming_def Let_def snd_conv fillNode_listed[OF zero_less_one rd]
    using leaf
    by (simp add: is_subdir_def is_plain_file_def isSymbolicLink_def isDirectory_def isFile_def
        fill_subdir_def stat_file_def small_paths st)
qed

text \<open>
  The walks of \<open>/x\<close> with \<open>maxDepth = 1\<close>: the listing of \<open>/x\<close> and the stat of
  \<open>/x/a\<close> hold a slot, the estimate of \<open>/x/b\<close> does not.
\<close>

theorem slot_discipline_witness:
  "[AcquireSlot, Syscall Readdir ''/x'', ReleaseSlot] \<in> set (snd (scanDirectory fs_small ''/x'' 1 0))
   \<and> [AcquireSlot, Syscall Stat ''/x/a'', ReleaseSlot] \<in> set (snd (scanDirectory fs_small ''/x'' 1 0))
   \<and> [AcquireSlot, Syscall Stat ''/x/a'', ReleaseSlot]
        \<in> set (snd (snd (scanDirectoryStreaming fs_small ''/x'' 1)))
   \<and> slot_scoped [AcquireSlot, Syscall Readdir ''/x'', ReleaseSlot]
   \<and> slot_scoped [AcquireSlot, Syscall Stat ''/x/a'', ReleaseSlot]
   \<and> [Syscall DuExec ''/x/b''] \<in> set (snd (scanDirectory fs_small ''/x'' 1 0))
   \<and> AcquireSlot \<notin> set [Syscall DuExec ''/x/b'']
   \<and> ReleaseSlot \<notin> set [Syscall DuExec ''/x/b'']"
proof -
  have m1: "[AcquireSlot, Syscall Readdir ''/x'', ReleaseSlot]
      \<in> set (snd (scanDirectory fs_small ''/x'' 1 0))"
    and m2: "[AcquireSlot, Syscall Stat ''/x/a'', ReleaseSlot]
      \<in> set (snd (scanDirectory fs_small ''/x'' 1 0))"
    and m3: "[Syscall DuExec ''/x/b''] \<in> set (snd (scanDirectory fs_small ''/x'' 1 0))"
    unfolding small_oneshot_calls by simp_all
  have m4: "[AcquireSlot, Syscall Stat ''/x/a'', ReleaseSlot]
      \<in> set (snd (snd (scanDirectoryStreaming fs_small ''/x'' 1)))"
    unfolding small_streaming_calls by simp
  note d = slot_discipline[of fs_small "''/x''" 1 0 "dir_node ''x'' ''/x''"
      "\<lparr>dirsFound = 1, dirsCompleted = 0\<rparr>" "[]" "()"]
  from d m1 have "slot_scoped [AcquireSlot, Syscall Readdir ''/x'', ReleaseSlot]" by fastforce
  moreover from d m2 have "slot_scoped [AcquireSlot, Syscall Stat ''/x/a'', ReleaseSlot]"
    by fastforce
  moreover from d m3 have "AcquireSlot \<notin> set [Syscall DuExec ''/x/b'']
      \<and> ReleaseSlot \<notin> set [Syscall DuExec ''/x/b'']" by fastforce
  ultimately show ?thesis using m1 m2 m3 m4 by blast
qed

text \<open>
  Claim C6 as stated fails for the size estimate: both walks of \<open>/x\<close> with
  \<open>maxDepth = 1\<close> run \<open>du\<close> on \<open>/x/b\<close> in a call with no slot.
\<close>

theorem du_without_slot_counterexample:
  "[Syscall DuExec ''/x/b''] \<in> set (snd (scanDirectory fs_small ''/x'' 1 0))
   \<and> [Syscall DuExec ''/x/b''] \<in> set (snd (snd (scanDirectoryStreaming fs_small ''/x'' 1)))
   \<and> \<not> slot_scoped [Syscall DuExec ''/x/b'']
   \<and> fst (fastDirSize fs_small ''/x/b'' False False) = [Syscall DuExec ''/x/b'']"
  unfolding small_oneshot_calls small_streaming_calls
  by (simp add: slot_scoped_bare fastDirSize_call)


section \<open>Symbolic links are skipped and the walks terminate\<close>

lemma links_leaf: "children n = None \<Longrightarrow> links_skipped fs n"
  by (simp add: links_skipped_def nodes_leaf kids_ok_def)

lemma links_children:
  "children n = Some cs \<Longrightarrow>
   links_skipped fs n =
     (\<forall>c\<in>set cs. (from_entry fs (path n) c \<or> is_other (path n) c) \<and> links_skipped fs c)"
  by (auto simp: links_skipped_def nodes_children kids_ok_def)

lemma type_recalcSizes [simp]: "type (recalcSizes n) = type n"
  by (cases n) (simp add: recalcSizes.simps Let_def split: option.splits)

lemma type_applyChildLimits [simp]: "type (applyChildLimits n d) = type n"
  by (cases n) (simp add: applyChildLimits.simps Let_def split: option.splits)

lemma snapshot_from_sel [simp]:
  "path (snapshot_from d n) = path n" "type (snapshot_from d n) = type n"
  by (simp_all add: snapshot_from_def)

lemma snapshot_from_child_ok:
  assumes "from_entry fs q c \<or> is_other q c"
  shows "from_entry fs q (snapshot_from d c) \<or> is_other q (snapshot_from d c)"
proof (cases "is_other q c")
  case True
  then show ?thesis by (simp add: is_other_def snapshot_from_leaf)
next
  case False
  then show ?thesis using assms by (auto simp: from_entry_def split: option.splits)
qed

lemma is_other_node: "is_other p (other_node p j v)"
  by (simp add: is_other_def other_node_def)

lemma snapshot_from_kids_of:
  assumes "children n = Some cs" "children (snapshot_from d n) = Some ks" "k \<in> set ks"
  shows "(\<exists>c\<in>set cs. k = snapshot_from (d + 1) c) \<or> (\<exists>j v. k = other_node (path n) j v)"
proof (cases "CHILD_LIMIT_DEPTH \<le> d \<and> MAX_CHILDREN < length cs")
  case True
  with snapshot_from_capped[OF assms(1), of d] assms(2,3) show ?thesis
    by (auto dest!: in_set_takeD split: if_splits)
next
  case False
  with snapshot_from_uncapped[OF assms(1), of d] assms(2,3) show ?thesis
    by auto
qed

lemma children_applyChildLimits:
  "children (applyChildLimits n d) = None \<longleftrightarrow> children n = None"
  by (cases n) (simp add: applyChildLimits.simps Let_def split: option.splits)

lemma children_snapshot_from:
  "children (snapshot_from d n) = None \<longleftrightarrow> children n = None"
  by (simp add: snapshot_from_def children_recalcSizes children_applyChildLimits)

lemma snapshot_from_links:
  "links_skipped fs n \<Longrightarrow> links_skipped fs (snapshot_from d n)"
proof (induction n arbitrary: d rule: recalcSizes.induct)
  case (1 nm p s t e ch tr)
  let ?n = "TreeNode nm p s t e ch tr"
  show ?case
  proof (cases ch)
    case None
    then show ?thesis using 1(2) by (simp add: snapshot_from_leaf)
  next
    case (Some cs)
    then have ch: "children ?n = Some cs" by simp
    show ?thesis
    proof (cases "cs = []")
      case True
      then show ?thesis using 1(2) ch by (simp add: snapshot_from_empty)
    next
      case ne: False
    from children_snapshot_from[of d ?n] ch obtain ks
      where ks: "children (snapshot_from d ?n) = Some ks" by auto
    have "(from_entry fs (path ?n) k \<or> is_other (path ?n) k) \<and> links_skipped fs k"
      if "k \<in> set ks" for k
    proof -
      from snapshot_from_kids_of[OF ch ks that]
      consider c where "c \<in> set cs" "k = snapshot_from (d + 1) c"
        | j v where "k = other_node (path ?n) j v" by blast
      then show ?thesis
      proof cases
        case 1
        note c = this
        from "1.prems" links_children[OF ch, of fs] c(1)
        have ok: "from_entry fs (path ?n) c \<or> is_other (path ?n) c" and ls: "links_skipped fs c"
          by blast+
        from "1.IH"[OF Some ne c(1) ls, of "d + 1"] have "links_skipped fs k" using c(2) by simp
        then show ?thesis using snapshot_from_child_ok[OF ok] c(2) by simp
      next
        case 2
        then show ?thesis
          using is_other_node[of "path ?n"] links_leaf[of k fs] by (auto simp: other_node_def)
      qed
    qed
    then show ?thesis using links_children[OF ks, of fs] by simp
    qed
  qed
qed

lemma snapshot_links: "links_skipped fs t \<Longrightarrow> links_skipped fs (snapshot t)"
  by (simp add: snapshot_eq snapshot_from_links)

lemma scanDirectory_root:
  "path (fst (scanDirectory fs dirPath maxDepth depth)) = dirPath"
  "type (fst (scanDirectory fs dirPath maxDepth depth)) = Directory"
  "name (fst (scanDirectory fs dirPath maxDepth depth)) = dir_name dirPath"
proof -
  consider "maxDepth \<le> depth" | "depth < maxDepth" "readdir fs dirPath = None"
    | es where "depth < maxDepth" "readdir fs dirPath = Some es"
    by (cases "readdir fs dirPath") force+
  then have "path (fst (scanDirectory fs dirPath maxDepth depth)) = dirPath
      \<and> type (fst (scanDirectory fs dirPath maxDepth depth)) = Directory
      \<and> name (fst (scanDirectory fs dirPath maxDepth depth)) = dir_name dirPath"
    by cases (simp_all add: scanDirectory_truncated scanDirectory_unreadable scanDirectory_listed)
  then show "path (fst (scanDirectory fs dirPath maxDepth depth)) = dirPath"
    "type (fst (scanDirectory fs dirPath maxDepth depth)) = Directory"
    "name (fst (scanDirectory fs dirPath maxDepth depth)) = dir_name dirPath"
    by simp_all
qed

lemma scan_entry_node:
  assumes "fst (scan_entry fs dirPath maxDepth depth e) = Some k"
  shows "\<not> isSymbolicLink e \<and> path k = join dirPath (d_name e)
     \<and> (isDirectory e \<and> type k = Directory
           \<and> k = fst (scanDirectory fs (join dirPath (d_name e)) maxDepth (depth + 1))
         \<or> isFile e \<and> type k = File \<and> children k = None)"
  using assms
  by (auto simp: scan_entry_def scanDirectory_root file_node_def split: if_splits option.splits)

lemma scan_children_kids:
  assumes "k \<in> set (scan_children fs dirPath maxDepth depth entries)"
  shows "(\<exists>e\<in>set entries. fst (scan_entry fs dirPath maxDepth depth e) = Some k)
     \<or> (\<exists>j v. k = other_node dirPath j v)"
proof -
  let ?c0 = "sort_desc (List.map_filter fst (map (scan_entry fs dirPath maxDepth depth) entries))"
  have "k \<in> set ?c0 \<or> (\<exists>j v. k = other_node dirPath j v)"
    using assms
    by (auto simp: scan_children_def Let_def limit_children_eq dest!: in_set_takeD
        split: if_splits)
  then show ?thesis by (auto simp: map_filter_def)
qed

lemma scanDirectory_links:
  "links_skipped fs (fst (scanDirectory fs dirPath maxDepth depth))"
proof (induction k \<equiv> "maxDepth - depth" arbitrary: depth dirPath)
  case 0
  then show ?case by (simp add: scanDirectory_truncated links_leaf)
next
  case (Suc k)
  then have lt: "depth < maxDepth" by simp
  show ?case
  proof (cases "readdir fs dirPath")
    case None
    then show ?thesis using lt by (simp add: scanDirectory_unreadable links_leaf)
  next
    case (Some entries)
    let ?kids = "scan_children fs dirPath maxDepth depth entries"
    let ?n = "fst (scanDirectory fs dirPath maxDepth depth)"
    have ch: "children ?n = Some ?kids" and p: "path ?n = dirPath"
      using lt Some by (simp_all add: scanDirectory_listed)
    have "(from_entry fs dirPath c \<or> is_other dirPath c) \<and> links_skipped fs c"
      if "c \<in> set ?kids" for c
    proof -
      from scan_children_kids[OF that]
      consider e where "e \<in> set entries" "fst (scan_entry fs dirPath maxDepth depth e) = Some c"
        | j v where "c = other_node dirPath j v" by blast
      then show ?thesis
      proof cases
        case 1
        note sn = scan_entry_node[OF 1(2)]
        have "from_entry fs dirPath c"
          using sn 1(1) Some by (auto simp: from_entry_def)
        moreover have "links_skipped fs c"
        proof (cases "isDirectory e \<and> type c = Directory")
          case True
          with sn have "c = fst (scanDirectory fs (join dirPath (d_name e)) maxDepth (depth + 1))"
            by auto
          then show ?thesis using Suc.hyps(1)[of "depth + 1" "join dirPath (d_name e)"] Suc.hyps(2)
            by simp
        next
          case False
          with sn have "children c = None" by auto
          then show ?thesis by (rule links_leaf)
        qed
        ultimately show ?thesis by simp
      next
        case 2
        then show ?thesis
          using is_other_node[of dirPath] links_leaf[of c fs] by (auto simp: other_node_def)
      qed
    qed
    then show ?thesis using links_children[OF ch, of fs] p by simp
  qed
qed

lemma fillNode_root:
  "path (fst (fillNode fs maxDepth depth node pr)) = path node"
  "type (fst (fillNode fs maxDepth depth node pr)) = type node"
proof -
  consider "maxDepth \<le> depth" | "depth < maxDepth" "readdir fs (path node) = None"
    | es where "depth < maxDepth" "readdir fs (path node) = Some es"
    by (cases "readdir fs (path node)") force+
  then have "path (fst (fillNode fs maxDepth depth node pr)) = path node
      \<and> type (fst (fillNode fs maxDepth depth node pr)) = type node"
    by cases (simp_all add: fillNode_truncated fillNode_unreadable fillNode_listed Let_def)
  then show "path (fst (fillNode fs maxDepth depth node pr)) = path node"
    "type (fst (fillNode fs maxDepth depth node pr)) = type node"
    by simp_all
qed

lemma fillNode_links:
  assumes "children node = None"
  shows "links_skipped fs (fst (fillNode fs maxDepth depth node pr))"
  using assms
proof (induction k \<equiv> "maxDepth - depth" arbitrary: depth node pr)
  case 0
  then show ?case by (simp add: fillNode_truncated links_leaf)
next
  case (Suc k)
  then have lt: "depth < maxDepth" by simp
  show ?case
  proof (cases "readdir fs (path node)")
    case None
    then show ?thesis using lt Suc.prems by (simp add: fillNode_unreadable links_leaf)
  next
    case (Some entries)
    let ?P = "\<lambda>c. (from_entry fs (path node) c \<or> is_other (path node) c) \<and> links_skipped fs c"
    let ?pr1 = "pr\<lparr>dirsFound := dirsFound pr + length (filter is_subdir entries)\<rparr>"
    let ?dirs = "foldl (fill_subdir fs maxDepth depth (path node)) ([], ?pr1, [])
                   (filter is_subdir entries)"
    let ?files = "map (stat_file fs (path node)) (filter is_plain_file entries)"
    let ?kids = "fst ?dirs @ concat (map fst ?files)"
    have res: "fst (fillNode fs maxDepth depth node pr) = set_children ?kids node"
      using lt Some by (simp add: fillNode_listed Let_def)
    have ih: "?P (fst (fillNode fs maxDepth (depth + 1)
                (dir_node (d_name e) (join (path node) (d_name e))) pr'))"
      if "e \<in> set (filter is_subdir entries)" for e pr'
    proof -
      have "links_skipped fs (fst (fillNode fs maxDepth (depth + 1)
                (dir_node (d_name e) (join (path node) (d_name e))) pr'))"
        using Suc.hyps(1)[of "depth + 1" "dir_node (d_name e) (join (path node) (d_name e))" pr']
          Suc.hyps(2) lt
        by simp
      moreover have "from_entry fs (path node) (fst (fillNode fs maxDepth (depth + 1)
                (dir_node (d_name e) (join (path node) (d_name e))) pr'))"
        using that Some by (auto simp: from_entry_def fillNode_root is_subdir_def)
      ultimately show ?thesis by simp
    qed
    have "\<forall>c\<in>set (fst ?dirs). ?P c"
      by (rule foldl_fill_subdir_kids) (use ih in auto)
    moreover have "?P c" if "c \<in> set (concat (map fst ?files))" for c
    proof -
      from stat_file_kids[OF that] obtain e sz where e: "e \<in> set (filter is_plain_file entries)"
        and c: "c = file_node (d_name e) (join (path node) (d_name e)) sz" by blast
      have "from_entry fs (path node) c"
        using e c Some by (auto simp: from_entry_def is_plain_file_def file_node_def)
      moreover have "children c = None" using c by (simp add: file_node_def)
      ultimately show ?thesis using links_leaf by simp
    qed
    ultimately have "\<forall>c\<in>set ?kids. ?P c" by auto
    then show ?thesis
      unfolding res using links_children[of "set_children ?kids node" ?kids fs] by simp
  qed
qed

lemma scanDirectoryStreaming_links:
  "links_skipped fs (fst (scanDirectoryStreaming fs dirPath maxDepth))"
  by (simp add: scanDirectoryStreaming_def Let_def snapshot_links fillNode_links)

lemma link_inv_links:
  "link_inv fs node f \<Longrightarrow> links_skipped fs node"
  "links_inv fs q cs fills \<Longrightarrow>
     \<forall>c\<in>set cs. (from_entry fs q c \<or> is_other q c) \<and> links_skipped fs c"
proof (induction fs node f and fs q cs fills rule: link_inv_links_inv.induct)
  case (3 fs node fills stats)
  then obtain cs where cs: "children node = Some cs" "links_inv fs (path node) cs fills"
    by (auto split: option.splits)
  from 3(1)[OF cs(1) cs(2)] show ?case using links_children[OF cs(1), of fs] by simp
qed auto

lemma links_inv_nth:
  "links_inv fs q cs fills \<Longrightarrow> j < length fills \<Longrightarrow>
   j < length cs \<and> link_inv fs (cs ! j) (fills ! j) \<and> from_entry fs q (cs ! j)"
proof (induction fills arbitrary: cs j)
  case Nil
  then show ?case by simp
next
  case (Cons f fs')
  then show ?case by (cases cs; cases j) auto
qed

lemma links_inv_update:
  "links_inv fs q cs fills \<Longrightarrow> j < length fills \<Longrightarrow> link_inv fs c' f' \<Longrightarrow>
   from_entry fs q c' \<Longrightarrow>
   links_inv fs q (cs[j := c']) (fills[j := f'])"
proof (induction fills arbitrary: cs j)
  case Nil
  then show ?case by simp
next
  case (Cons f fs')
  then show ?case by (cases cs; cases j) auto
qed

lemma links_inv_append:
  "links_inv fs q cs fills \<Longrightarrow> (from_entry fs q x \<or> is_other q x) \<and> links_skipped fs x \<Longrightarrow>
   links_inv fs q (cs @ [x]) fills"
proof (induction fills arbitrary: cs)
  case Nil
  then show ?case by auto
next
  case (Cons f fs')
  then show ?case by (cases cs) auto
qed

lemma links_inv_map:
  "(\<forall>e\<in>set es. from_entry fs q (fst (b e)) \<and> link_inv fs (fst (b e)) (snd (b e))) \<Longrightarrow>
   links_inv fs q (map (\<lambda>e. fst (b e)) es) (map (\<lambda>e. snd (b e)) es)"
  by (induction es) auto

lemma links_set_size: "links_skipped fs (set_size v n) = links_skipped fs n"
proof (cases "children n")
  case None
  then show ?thesis by (simp add: links_leaf)
next
  case (Some cs)
  then show ?thesis
    using links_children[of "set_size v n" cs fs] links_children[of n cs fs] by simp
qed

lemma fill_step_id:
  assumes "fill_step fs maxDepth depth (g, n, f) (g', n', f')"
  shows "path n' = path n \<and> type n' = type n"
  using assms
  by (induction depth "(g, n, f)" "(g', n', f')" arbitrary: g n f g' n' f' rule: fill_step.induct)
    simp_all

lemma begin_child_links:
  assumes "readdir fs q = Some entries" "e \<in> set (filter is_subdir entries)"
  shows "from_entry fs q (fst (begin_child m d q e))
     \<and> link_inv fs (fst (begin_child m d q e)) (snd (begin_child m d q e))"
  using assms
  by (auto simp: begin_child_def fill_begin_def from_entry_def is_subdir_def links_leaf)

lemma fill_step_links:
  assumes "fill_step fs maxDepth depth (g, n, f) (g', n', f')"
    and "link_inv fs n f"
  shows "link_inv fs n' f'"
  using assms
proof (induction depth "(g, n, f)" "(g', n', f')" arbitrary: g n f g' n' f' rule: fill_step.induct)
  case (du_settled depth g node)
  then show ?case by (simp add: links_set_size)
next
  case (readdir_failed node depth g)
  then show ?case by simp
next
  case (readdir_aborted node entries g depth)
  then show ?case by simp
next
  case (readdir_ok node entries g subdirs g' depth)
  have "links_inv fs (path node)
          (map (\<lambda>e. fst (begin_child maxDepth depth (path node) e)) subdirs)
          (map (\<lambda>e. snd (begin_child maxDepth depth (path node) e)) subdirs)"
    by (intro links_inv_map) (use readdir_ok(1,3) begin_child_links in blast)
  moreover have "\<forall>e\<in>set (filter is_plain_file entries). plain_in fs (path node) e"
    using readdir_ok(1) by (simp add: plain_in_def)
  ultimately show ?case by simp
next
  case (stat_ok entry stats node sz cs depth g fills)
  let ?file = "file_node (d_name entry) (join (path node) (d_name entry)) sz"
  from stat_ok have st: "\<forall>e\<in>set stats. plain_in fs (path node) e"
    and ci: "links_inv fs (path node) cs fills"
    by simp_all
  from st stat_ok(1) have "plain_in fs (path node) entry" by blast
  then have "from_entry fs (path node) ?file"
    by (auto simp: plain_in_def from_entry_def is_plain_file_def file_node_def split: option.splits)
  moreover have "links_skipped fs ?file" by (simp add: links_leaf file_node_def)
  ultimately have "links_inv fs (path node) (cs @ [?file]) fills"
    using links_inv_append[OF ci] by blast
  moreover have "\<forall>e\<in>set (remove1 entry stats). plain_in fs (path node) e"
    using st by (meson notin_set_remove1)
  ultimately show ?case by simp
next
  case (stat_failed entry stats node depth g fills)
  then show ?case by (auto split: option.splits dest: notin_set_remove1)
next
  case (child_step j fills node cs depth g g' c' f' stats)
  from child_step have st: "\<forall>e\<in>set stats. plain_in fs (path node) e"
    and ci: "links_inv fs (path node) cs fills"
    by simp_all
  note nth = links_inv_nth[OF ci child_step(1)]
  then have "link_inv fs c' f'" using child_step(5) by simp
  moreover have "from_entry fs (path node) c'"
    using fill_step_id[OF child_step(4)] nth by (auto simp: from_entry_def split: option.splits)
  ultimately have "links_inv fs (path node) (cs[j := c']) (fills[j := f'])"
    using links_inv_update[OF ci child_step(1)] by blast
  then show ?case using st by simp
next
  case (all_settled fills stats depth g node)
  then obtain cs where cs: "children node = Some cs" "links_inv fs (path node) cs fills"
    by (auto split: option.splits)
  from link_inv_links(2)[OF cs(2)] show ?case
    using links_children[OF cs(1), of fs] by simp
qed

lemma scan_links_init: "scan_links fs (scan_init dirPath maxDepth ab)"
  by (simp add: scan_links_def scan_init_def fill_begin_def Let_def links_leaf)

lemma scan_links_step:
  assumes "scan_step fs maxDepth s l s'" "scan_links fs s"
  shows "scan_links fs s'"
  using assms
proof (induction rule: scan_step.induct)
  case (walker s g' r' f')
  then show ?case using fill_step_links[OF walker(1)] by (simp add: scan_links_def)
next
  case (timer s l s')
  then show ?case by (auto simp: scan_links_def tick_def split: if_splits)
next
  case (completion s l s')
  then show ?case by (auto simp: scan_links_def finish_def split: if_splits)
next
  case (signal s)
  then show ?case by (simp add: scan_links_def)
qed

lemma scan_links_reachable:
  "scan_reachable fs maxDepth dirPath s \<Longrightarrow> scan_links fs s"
  by (induction rule: scan_reachable.induct) (auto intro: scan_links_init scan_links_step)

lemma published_links:
  assumes "scan_reachable fs maxDepth dirPath s" "scan_step fs maxDepth s l s'"
    "published l = Some t"
  shows "links_skipped fs t"
proof -
  from scan_links_reachable[OF assms(1)] have "links_skipped fs (root s)"
    using link_inv_links(1) by (simp add: scan_links_def)
  then show ?thesis using published_snapshot[OF assms(2,3)] snapshot_links by simp
qed

declare fill_cost.simps [simp del]

lemma fill_cost_cut: "maxDepth \<le> depth \<Longrightarrow> fill_cost fs maxDepth depth p = 1"
  by (subst fill_cost.simps) simp

lemma fill_cost_listing:
  "depth < maxDepth \<Longrightarrow> fill_cost fs maxDepth depth p = listing_cost fs maxDepth depth p"
  by (subst fill_cost.simps) (simp add: listing_cost_def)

lemma remainings_map:
  "remainings fs m d (map (\<lambda>e. fst (b e)) es) (map (\<lambda>e. snd (b e)) es) =
     sum_list (map (\<lambda>e. remaining fs m d (fst (b e)) (snd (b e))) es)"
  by (induction es) auto

lemma begin_child_remaining:
  "remaining fs m (Suc d) (fst (begin_child m d p e)) (snd (begin_child m d p e)) =
     fill_cost fs m (d + 1) (join p (d_name e))"
  by (simp add: begin_child_def fill_begin_def fill_cost_cut fill_cost_listing)

lemma remainings_append:
  "fills_wf cs fills \<Longrightarrow> remainings fs m d (cs @ xs) fills = remainings fs m d cs fills"
proof (induction fills arbitrary: cs)
  case Nil
  then show ?case by simp
next
  case (Cons f fs')
  then show ?case by (cases cs) auto
qed

lemma remainings_update:
  "j < length fills \<Longrightarrow> j < length cs \<Longrightarrow>
   remaining fs m d c' f' < remaining fs m d (cs ! j) (fills ! j) \<Longrightarrow>
   remainings fs m d (cs[j := c']) (fills[j := f']) < remainings fs m d cs fills"
proof (induction fills arbitrary: cs j)
  case Nil
  then show ?case by simp
next
  case (Cons f fs')
  then show ?case by (cases cs; cases j) auto
qed

lemma fill_step_decreases:
  assumes "fill_step fs maxDepth depth (g, n, f) (g', n', f')"
    and "fill_wf n f"
  shows "remaining fs maxDepth depth n' f' < remaining fs maxDepth depth n f"
  using assms
proof (induction depth "(g, n, f)" "(g', n', f')" arbitrary: g n f g' n' f' rule: fill_step.induct)
  case (du_settled depth g node)
  then show ?case by simp
next
  case (readdir_failed node depth g)
  then show ?case by (simp add: listing_cost_def)
next
  case (readdir_aborted node entries g depth)
  then show ?case by (simp add: listing_cost_def)
next
  case (readdir_ok node entries g subdirs g' depth)
  then show ?case
    by (simp add: listing_cost_def remainings_map begin_child_remaining)
next
  case (stat_ok entry stats node sz cs depth g fills)
  then have "fills_wf cs fills" by simp
  then show ?case using stat_ok(1,3)
    by (simp add: remainings_append length_remove1) (cases stats; simp)
next
  case (stat_failed entry stats node depth g fills)
  then show ?case by (simp add: length_remove1) (cases stats; simp)
next
  case (child_step j fills node cs depth g g' c' f' stats)
  then have wf: "fills_wf cs fills" by simp
  from fills_wf_nth[OF wf child_step(1)] have "fill_wf (cs ! j) (fills ! j)" by simp
  then have "remaining fs maxDepth (depth + 1) c' f'
      < remaining fs maxDepth (depth + 1) (cs ! j) (fills ! j)"
    using child_step(5) by simp
  from remainings_update[OF child_step(1,3), of fs maxDepth "Suc depth" c' f'] this
  show ?case using child_step(2) by simp
next
  case (all_settled fills stats depth g node)
  then show ?case by simp
qed

lemma fill_step_enabled:
  assumes "fill_wf n f" "f \<noteq> Returned"
  shows "\<exists>g' n' f'. fill_step fs maxDepth depth (g, n, f) (g', n', f')"
  using assms
proof (induction f arbitrary: n depth g)
  case AwaitDu
  show ?case using fill_step.du_settled by blast
next
  case AwaitReaddir
  show ?case
  proof (cases "readdir fs (path n)")
    case None
    then show ?thesis using fill_step.readdir_failed by blast
  next
    case (Some es)
    show ?thesis
    proof (cases "aborted g")
      case True
      then show ?thesis using fill_step.readdir_aborted[OF Some] by blast
    next
      case False
      then show ?thesis using fill_step.readdir_ok[OF Some False refl refl] by blast
    qed
  qed
next
  case (AwaitAll fills stats)
  from AwaitAll(2) obtain cs where cs: "children n = Some cs" and wf: "fills_wf cs fills"
    by (auto split: option.splits)
  show ?case
  proof (cases stats)
    case (Cons e rest)
    then have mem: "e \<in> set stats" by simp
    show ?thesis
    proof (cases "stat fs (join (path n) (d_name e))")
      case None
      from fill_step.stat_failed[OF mem None] show ?thesis by blast
    next
      case (Some sz)
      from fill_step.stat_ok[OF mem Some cs] show ?thesis by blast
    qed
  next
    case Nil
    show ?thesis
    proof (cases "\<forall>f\<in>set fills. f = Returned")
      case True
      from fill_step.all_settled[OF True Nil] show ?thesis by blast
    next
      case False
      then obtain j where j: "j < length fills" "fills ! j \<noteq> Returned"
        by (metis in_set_conv_nth)
      from fills_wf_nth[OF wf j(1)] have jc: "j < length cs" and w: "fill_wf (cs ! j) (fills ! j)"
        by simp_all
      have "fills ! j \<in> set fills" using j(1) by simp
      from AwaitAll(1)[OF this w j(2), of "depth + 1" g]
      obtain g' c' f' where "fill_step fs maxDepth (depth + 1) (g, cs ! j, fills ! j) (g', c', f')"
        by blast
      from fill_step.child_step[OF j(1) cs jc this] show ?thesis by blast
    qed
  qed
next
  case Returned
  then show ?case by simp
qed

lemma join_inject: "join q a = join q b \<Longrightarrow> a = b"
  by (simp add: join_def split: if_splits)

lemma links_skipped_no_link:
  assumes "links_skipped fs t"
  shows "no_link_nodes fs t"
  unfolding no_link_nodes_def
proof (intro ballI impI)
  fix m
  assume m: "m \<in> set (nodes t)" and un: "unique_names fs (path m)"
  from assms m have ok: "kids_ok fs m" by (simp add: links_skipped_def)
  show "case children m of None \<Rightarrow> True
        | Some cs \<Rightarrow> \<forall>c\<in>set cs. is_other (path m) c \<or> path c \<notin> set (link_paths fs (path m))"
  proof (cases "children m")
    case None
    then show ?thesis by simp
  next
    case (Some cs)
    have "is_other (path m) c \<or> path c \<notin> set (link_paths fs (path m))" if c: "c \<in> set cs" for c
    proof (cases "is_other (path m) c")
      case True
      then show ?thesis by simp
    next
      case False
      with ok Some c have fe: "from_entry fs (path m) c" by (auto simp: kids_ok_def)
      then obtain es e where es: "readdir fs (path m) = Some es" and e: "e \<in> set es"
        "\<not> isSymbolicLink e" "path c = join (path m) (d_name e)"
        by (auto simp: from_entry_def split: option.splits)
      from un es have inj: "inj_on d_name (set es)" by (simp add: unique_names_def distinct_map)
      have "path c \<noteq> join (path m) (d_name e')" if e': "e' \<in> set es" "isSymbolicLink e'" for e'
      proof
        assume "path c = join (path m) (d_name e')"
        with e(3) have "d_name e = d_name e'" using join_inject by metis
        with inj e(1) e'(1) have "e = e'" by (simp add: inj_on_def)
        with e(2) e'(2) show False by simp
      qed
      then show ?thesis using es by (auto simp: link_paths_def)
    qed
    then show ?thesis using Some by simp
  qed
qed

lemma scan_init_remaining:
  "remaining fs m 0 (root (scan_init p m ab)) (walk (scan_init p m ab)) \<le> fill_cost fs m 0 p"
  by (simp add: scan_init_def fill_begin_def Let_def fill_cost_cut fill_cost_listing)

lemma walker_steps_bound:
  assumes "walker_steps fs m s k s'" "scan_wf s"
  shows "scan_wf s' \<and> k + remaining fs m 0 (root s') (walk s') \<le> remaining fs m 0 (root s) (walk s)"
  using assms
proof (induction rule: walker_steps.induct)
  case (none s)
  then show ?case by simp
next
  case (walker s k s' g' r' f')
  then have wf: "scan_wf s'" and le: "k + remaining fs m 0 (root s') (walk s')
      \<le> remaining fs m 0 (root s) (walk s)" by simp_all
  from fill_step_wf[OF walker(2)] wf have "scan_wf (s'\<lparr>sh := g', root := r', walk := f'\<rparr>)"
    by (simp add: scan_wf_def)
  moreover from fill_step_decreases[OF walker(2)] wf
  have "remaining fs m 0 r' f' < remaining fs m 0 (root s') (walk s')" by (simp add: scan_wf_def)
  ultimately show ?case using le by simp
next
  case (other s k s' l s'')
  then show ?case using scan_wf_step[OF other(2)] by simp
qed

lemma walker_steps_progress:
  assumes "walker_steps fs m (scan_init p m ab) k s"
  shows "k \<le> fill_cost fs m 0 p"
    and "walk s \<noteq> Returned \<Longrightarrow> \<exists>g' r' f'. fill_step fs m 0 (sh s, root s, walk s) (g', r', f')"
proof -
  from walker_steps_bound[OF assms scan_wf_init]
  have wf: "scan_wf s" and le: "k + remaining fs m 0 (root s) (walk s)
      \<le> remaining fs m 0 (root (scan_init p m ab)) (walk (scan_init p m ab))" by simp_all
  from le scan_init_remaining[of fs m p ab] show "k \<le> fill_cost fs m 0 p" by simp
  show "\<exists>g' r' f'. fill_step fs m 0 (sh s, root s, walk s) (g', r', f')" if "walk s \<noteq> Returned"
    using fill_step_enabled[OF _ that] wf by (simp add: scan_wf_def)
qed

lemma completion_enabled:
  assumes "walk s = Returned" "\<not> finished s"
  shows "\<exists>l s'. scan_step fs m s l s' \<and> finished s'"
proof -
  have "scan_step fs m s (fst (finish s)) (snd (finish s))"
    using scan_step.completion[OF assms] by simp
  moreover have "finished (snd (finish s))" by (simp add: finish_def)
  ultimately show ?thesis by blast
qed

lemma scanDirectory_total: "scanDirectory_dom (fs, dirPath, maxDepth, depth)"
proof -
  let ?R = "measure (\<lambda>(fs :: filesystem, dirPath :: string, maxDepth :: nat, depth :: nat).
               maxDepth - depth)"
  have sub: "scanDirectory_rel \<le> (\<lambda>y x. (y, x) \<in> ?R)"
    by (auto elim!: scanDirectory_rel.cases)
  have "wfp (\<lambda>y x. (y, x) \<in> ?R)"
    unfolding wfp_wf_eq by (rule wf_measure)
  then have "Wellfounded.accp (\<lambda>y x. (y, x) \<in> ?R) (fs, dirPath, maxDepth, depth)"
    by (rule accp_wfpD)
  then show ?thesis using accp_subset[OF sub] by blast
qed

lemma fillNode_total: "fillNode_dom (fs, maxDepth, depth, node, pr)"
proof -
  let ?R = "measure (\<lambda>(fs :: filesystem, maxDepth :: nat, depth :: nat, node :: TreeNode,
               pr :: ScanProgress). maxDepth - depth)"
  have sub: "fillNode_rel \<le> (\<lambda>y x. (y, x) \<in> ?R)"
    by (auto elim!: fillNode_rel.cases)
  have "wfp (\<lambda>y x. (y, x) \<in> ?R)"
    unfolding wfp_wf_eq by (rule wf_measure)
  then have "Wellfounded.accp (\<lambda>y x. (y, x) \<in> ?R) (fs, maxDepth, depth, node, pr)"
    by (rule accp_wfpD)
  then show ?thesis using accp_subset[OF sub] by blast
qed

text \<open>
  Claim C9. For every file system, also one whose listings hold symbolic links to files,
  to directories and to their own ancestors: in the tree of the one-shot walk, in the tree
  the incremental walk returns and in every snapshot it publishes, every node below the
  root comes from a directory entry that is not a symbolic link, or is the aggregate of
  the folded children; where the names of a listing are distinct, no such node has the
  path of a symbolic link. Both walks terminate: the recursion of \<open>scanDirectory\<close> and of
  \<open>fillNode\<close> is well-founded on every input, and every run of the incremental walk, in
  any order of completions and with or without cancellation, makes at most
  \<open>fill_cost fs maxDepth 0 dirPath\<close> walker steps, can make a step as long as the walk has
  not returned, and can settle its promise once it has.
\<close>

theorem symlinks_skipped:
  "links_skipped fs (fst (scanDirectory fs dirPath maxDepth depth))
   \<and> links_skipped fs (fst (scanDirectoryStreaming fs dirPath maxDepth))
   \<and> (scan_reachable fs maxDepth dirPath s \<and> scan_step fs maxDepth s l s' \<and> published l = Some t
        \<longrightarrow> links_skipped fs t)
   \<and> (links_skipped fs u \<longrightarrow> no_link_nodes fs u)
   \<and> scanDirectory_dom (fs, dirPath, maxDepth, depth)
   \<and> fillNode_dom (fs, maxDepth, depth, node, pr)
   \<and> (walker_steps fs maxDepth (scan_init dirPath maxDepth ab) k w \<longrightarrow>
        k \<le> fill_cost fs maxDepth 0 dirPath
        \<and> (walk w \<noteq> Returned \<longrightarrow>
             (\<exists>g' r' f'. fill_step fs maxDepth 0 (sh w, root w, walk w) (g', r', f')))
        \<and> (walk w = Returned \<and> \<not> finished w \<longrightarrow>
             (\<exists>l' w'. scan_step fs maxDepth w l' w' \<and> finished w')))"
proof (intro conjI impI)
  show "links_skipped fs (fst (scanDirectory fs dirPath maxDepth depth))"
    by (rule scanDirectory_links)
  show "links_skipped fs (fst (scanDirectoryStreaming fs dirPath maxDepth))"
    by (rule scanDirectoryStreaming_links)
  show "links_skipped fs t"
    if "scan_reachable fs maxDepth dirPath s \<and> scan_step fs maxDepth s l s' \<and> published l = Some t"
    using that published_links by blast
  show "no_link_nodes fs u" if "links_skipped fs u"
    using that by (rule links_skipped_no_link)
  show "scanDirectory_dom (fs, dirPath, maxDepth, depth)" by (rule scanDirectory_total)
  show "fillNode_dom (fs, maxDepth, depth, node, pr)" by (rule fillNode_total)
  show "k \<le> fill_cost fs maxDepth 0 dirPath"
    if "walker_steps fs maxDepth (scan_init dirPath maxDepth ab) k w"
    using that by (rule walker_steps_progress(1))
  show "\<exists>g' r' f'. fill_step fs maxDepth 0 (sh w, root w, walk w) (g', r', f')"
    if "walker_steps fs maxDepth (scan_init dirPath maxDepth ab) k w" "walk w \<noteq> Returned"
    using that by (rule walker_steps_progress(2))
  show "\<exists>l' w'. scan_step fs maxDepth w l' w' \<and> finished w'"
    if "walk w = Returned \<and> \<not> finished w"
    using that completion_enabled by blast
qed

lemma walker_steps_reachable:
  assumes "walker_steps fs m s k s'" "scan_reachable fs m p s"
  shows "scan_reachable fs m p s'"
  using assms
proof (induction rule: walker_steps.induct)
  case (none s)
  then show ?case by simp
next
  case (walker s k s' g' r' f')
  then show ?case using scan_reachable.step scan_step.walker by blast
next
  case (other s k s' l s'')
  then show ?case using scan_reachable.step by blast
qed

lemma cycle_paths:
  "join ''/c'' ''f'' = ''/c/f''" "join ''/c'' ''loop'' = ''/c/loop''" "dir_name ''/c'' = ''c''"
  "extension_of ''f'' = None"
  by (simp_all add: join_def dir_name_def basename_def extension_of_def extname_def toLowerCase_def)

lemma cycle_listing:
  "readdir fs_cycle p = Some [\<lparr>d_name = ''f'', d_type = DFile\<rparr>, \<lparr>d_name = ''loop'', d_type = DSymlink\<rparr>]"
  "stat fs_cycle p = Some 5"
  by (simp_all add: fs_cycle_def)

lemma cycle_cost: "fill_cost fs_cycle 8 0 ''/c'' = 3"
  by (simp add: fill_cost_listing listing_cost_def cycle_listing is_plain_file_def is_subdir_def
      isSymbolicLink_def isDirectory_def isFile_def)

lemma cycle_step:
  assumes "walker_steps fs_cycle 8 s k (cycle_state g r f)"
    and "fill_step fs_cycle 8 0 (g, r, f) (g', r', f')"
  shows "walker_steps fs_cycle 8 s (Suc k) (cycle_state g' r' f')"
  using walker_steps.walker[of fs_cycle 8 s k "cycle_state g r f" g' r' f'] assms
  by (simp add: cycle_state_def)

lemma cycle_run: "walker_steps fs_cycle 8 (scan_init ''/c'' 8 False) 3 cycle_done"
proof -
  let ?g0 = "\<lparr>progress = \<lparr>dirsFound = 1, dirsCompleted = 0\<rparr>, dirty = False, aborted = False\<rparr>"
  let ?g1 = "\<lparr>progress = \<lparr>dirsFound = 1, dirsCompleted = 0\<rparr>, dirty = True, aborted = False\<rparr>"
  let ?g2 = "\<lparr>progress = \<lparr>dirsFound = 1, dirsCompleted = 1\<rparr>, dirty = True, aborted = False\<rparr>"
  let ?r0 = "TreeNode ''c'' ''/c'' 0 Directory None None None"
  let ?r1 = "TreeNode ''c'' ''/c'' 0 Directory None (Some []) None"
  let ?f = "\<lparr>d_name = ''f'', d_type = DFile\<rparr>"
  have init: "scan_init ''/c'' 8 False = cycle_state ?g0 ?r0 AwaitReaddir"
    by (simp add: scan_init_def fill_begin_def cycle_paths dir_node_def cycle_state_def)
  have s0: "walker_steps fs_cycle 8 (scan_init ''/c'' 8 False) 0 (cycle_state ?g0 ?r0 AwaitReaddir)"
    using walker_steps.none[of fs_cycle 8 "scan_init ''/c'' 8 False"] unfolding init .
  have na: "\<not> aborted ?g0" by simp
  have rd: "readdir fs_cycle (path ?r0) =
      Some [\<lparr>d_name = ''f'', d_type = DFile\<rparr>, \<lparr>d_name = ''loop'', d_type = DSymlink\<rparr>]"
    by (simp add: cycle_listing)
  have f1: "fill_step fs_cycle 8 0 (?g0, ?r0, AwaitReaddir) (?g0, ?r1, AwaitAll [] [?f])"
    using fill_step.readdir_ok[OF rd na refl refl, of 8 0]
    by (simp add: is_subdir_def is_plain_file_def isSymbolicLink_def isDirectory_def isFile_def
        add_found_def set_children_def)
  have f2: "fill_step fs_cycle 8 0 (?g0, ?r1, AwaitAll [] [?f]) (?g1, cycle_tree, AwaitAll [] [])"
    using fill_step.stat_ok[OF _ cycle_listing(2), of ?f "[?f]" ?r1 "[]" 8 0 ?g0 "[]"]
    by (simp add: cycle_paths set_children_def file_node_def markDirty_def cycle_tree_def)
  have f3: "fill_step fs_cycle 8 0 (?g1, cycle_tree, AwaitAll [] []) (?g2, cycle_tree, Returned)"
    using fill_step.all_settled[of "[]" "[]" fs_cycle 8 0 ?g1 cycle_tree]
    by (simp add: markDirty_def inc_completed_def)
  note cycle_step[OF s0 f1]
  note cycle_step[OF this f2]
  note cycle_step[OF this f3]
  then show ?thesis by (simp add: cycle_state_def cycle_done_def numeral_3_eq_3)
qed

lemma cycle_snapshot:
  "snapshot cycle_tree =
     TreeNode ''c'' ''/c'' 5 Directory None
       (Some [TreeNode ''f'' ''/c/f'' 5 File None None None]) None"
  by (simp add: snapshot_def cycle_tree_def sort_desc_def sum_sizes_def js_add_exact Let_def
      CHILD_LIMIT_DEPTH_def recalcSizes.simps applyChildLimits.simps)

lemma cycle_finish:
  "scan_step fs_cycle 8 cycle_done (Resolve (snapshot cycle_tree)) (cycle_done\<lparr>finished := True\<rparr>)"
  using scan_step.completion[of cycle_done "Resolve (snapshot cycle_tree)"
      "cycle_done\<lparr>finished := True\<rparr>" fs_cycle 8]
  by (simp add: cycle_done_def finish_def)

lemma cycle_oneshot:
  "scanDirectory fs_cycle ''/c'' 8 0 =
     (TreeNode ''c'' ''/c'' 5 Directory None
        (Some [TreeNode ''f'' ''/c/f'' 5 File None None None]) None,
      [[AcquireSlot, Syscall Readdir ''/c'', ReleaseSlot],
       [AcquireSlot, Syscall Stat ''/c/f'', ReleaseSlot]])"
proof -
  have lt: "(0::nat) < 8" by simp
  show ?thesis
    unfolding scanDirectory_listed[OF lt cycle_listing(1)]
    by (simp add: scan_children_def scan_entry_def isSymbolicLink_def isDirectory_def isFile_def
        cycle_paths cycle_listing map_filter_def sort_desc_def CHILD_LIMIT_DEPTH_def file_node_def
        sum_sizes_def js_add_exact Let_def)
qed

text \<open>
  On the cycle, both walks of \<open>/c\<close> with \<open>maxDepth = 8\<close> give the tree with the one child
  \<open>/c/f\<close>: the link \<open>/c/loop\<close> is no node, and the incremental walk returns after three
  steps, which is \<open>fill_cost\<close> there.
\<close>

theorem symlinks_skipped_witness:
  "link_paths fs_cycle ''/c'' = [''/c/loop'']
   \<and> readdir fs_cycle ''/c/loop'' = readdir fs_cycle ''/c''
   \<and> fst (scanDirectory fs_cycle ''/c'' 8 0) = snapshot cycle_tree
   \<and> map path (nodes (snapshot cycle_tree)) = [''/c'', ''/c/f'']
   \<and> links_skipped fs_cycle (fst (scanDirectory fs_cycle ''/c'' 8 0))
   \<and> scan_reachable fs_cycle 8 ''/c'' cycle_done
   \<and> scan_step fs_cycle 8 cycle_done (Resolve (snapshot cycle_tree)) (cycle_done\<lparr>finished := True\<rparr>)
   \<and> links_skipped fs_cycle (snapshot cycle_tree)
   \<and> no_link_nodes fs_cycle (snapshot cycle_tree)
   \<and> walker_steps fs_cycle 8 (scan_init ''/c'' 8 False) 3 cycle_done
   \<and> walk cycle_done = Returned
   \<and> fill_cost fs_cycle 8 0 ''/c'' = 3
   \<and> (\<exists>l' w'. scan_step fs_cycle 8 cycle_done l' w' \<and> finished w')"
proof -
  note inst = symlinks_skipped[where fs = fs_cycle and dirPath = "''/c''" and maxDepth = 8
      and depth = 0 and s = cycle_done and l = "Resolve (snapshot cycle_tree)"
      and s' = "cycle_done\<lparr>finished := True\<rparr>" and t = "snapshot cycle_tree"
      and u = "snapshot cycle_tree" and ab = False and k = 3 and w = cycle_done]
  have reach: "scan_reachable fs_cycle 8 ''/c'' cycle_done"
    using walker_steps_reachable[OF cycle_run scan_reachable.start] .
  have lp: "link_paths fs_cycle ''/c'' = [''/c/loop'']"
    by (simp add: link_paths_def cycle_listing isSymbolicLink_def cycle_paths)
  have same: "readdir fs_cycle ''/c/loop'' = readdir fs_cycle ''/c''"
    by (simp add: cycle_listing)
  have tree: "fst (scanDirectory fs_cycle ''/c'' 8 0) = snapshot cycle_tree"
    by (simp add: cycle_oneshot cycle_snapshot)
  have ns: "map path (nodes (snapshot cycle_tree)) = [''/c'', ''/c/f'']"
    by (simp add: cycle_snapshot nodes_def)
  have st: "walk cycle_done = Returned" "\<not> finished cycle_done"
    by (simp_all add: cycle_done_def)
  have pub: "published (Resolve (snapshot cycle_tree)) = Some (snapshot cycle_tree)" by simp
  from inst have a: "links_skipped fs_cycle (fst (scanDirectory fs_cycle ''/c'' 8 0))" by blast
  from inst reach cycle_finish pub have b: "links_skipped fs_cycle (snapshot cycle_tree)" by blast
  from inst b have c: "no_link_nodes fs_cycle (snapshot cycle_tree)" by blast
  from inst cycle_run st have d: "\<exists>l' w'. scan_step fs_cycle 8 cycle_done l' w' \<and> finished w'"
    by blast
  show ?thesis
    using lp same tree ns a reach cycle_finish b c cycle_run st(1) cycle_cost d by blast
qed


end
